theory Spec2Isabelle
  imports Main "HOL-Library.Sublist"
begin

section \<open>Strings and the characters the script treats specially\<close>

text \<open>
  A Python \<open>str\<close> is modelled as a \<open>string\<close> (a list of 8-bit characters), so the model
  covers the code points 0..255.  The four characters below are written with their codes
  because they are the ones the script escapes or matches on.
\<close>

abbreviation BS :: char where "BS \<equiv> CHR 0x5C"  \<comment> \<open>backslash\<close>
abbreviation NL :: char where "NL \<equiv> CHR 0x0A"  \<comment> \<open>line feed\<close>
abbreviation DQ :: char where "DQ \<equiv> CHR 0x22"  \<comment> \<open>double quote\<close>
abbreviation SQ :: char where "SQ \<equiv> CHR 0x27"  \<comment> \<open>single quote\<close>

subsection \<open>\<open>str.replace\<close>\<close>

text \<open>
  \<open>s.replace(old, new)\<close> replaces the non-overlapping occurrences of \<open>old\<close>, found from left
  to right.  After an occurrence the scan resumes behind it.  For an empty \<open>old\<close> Python puts
  \<open>new\<close> before every character and at the end.
\<close>

fun replace_scan :: "string \<Rightarrow> string \<Rightarrow> string \<Rightarrow> string" where
  "replace_scan old new [] = []"
| "replace_scan old new (c # cs) =
     (if prefix old (c # cs) then new @ replace_scan old new (drop (length old - 1) cs)
      else c # replace_scan old new cs)"

definition str_replace :: "string \<Rightarrow> string \<Rightarrow> string \<Rightarrow> string" where
  "str_replace old new s =
     (if old = [] then new @ concat (map (\<lambda>c. c # new) s) else replace_scan old new s)"

subsection \<open>\<open>escape_str\<close>\<close>

text \<open>
  \<^verbatim>\<open>
  def escape_str(s: str, single_quote: bool) -> str:
      escaped = s.replace("\\", r"\\").replace(r"\n", r"\\n")
      if single_quote:
          return escaped.replace("'", r"\'")
      else:
          return escaped.replace("\"", "\\\"")
  \<close>
  The first call doubles every backslash; the second replaces the two characters backslash,
  \<open>n\<close> by backslash, backslash, \<open>n\<close>; the last puts a backslash before the quote that the
  flag selects.
\<close>

definition escape_str :: "string \<Rightarrow> bool \<Rightarrow> string" where
  "escape_str s single_quote =
     (let escaped = str_replace [BS, CHR ''n''] [BS, BS, CHR ''n''] (str_replace [BS] [BS, BS] s)
      in if single_quote then str_replace [SQ] [BS, SQ] escaped
         else str_replace [DQ] [BS, DQ] escaped)"

section \<open>The regular expressions of the script\<close>

subsection \<open>Patterns\<close>

text \<open>
  The script uses three patterns.  They are built from literal characters, the negated class
  \<^verbatim>\<open>[^\n]\<close>, the dot (no flag is given, so it matches every character but the line feed),
  a greedy star over one of these, concatenation, alternation and numbered groups.
\<close>

datatype atom = Lit char | NotLit char | Dot

fun atom_ok :: "atom \<Rightarrow> char \<Rightarrow> bool" where
  "atom_ok (Lit x) c = (c = x)"
| "atom_ok (NotLit x) c = (c \<noteq> x)"
| "atom_ok Dot c = (c \<noteq> NL)"

datatype regex =
    Eps
  | Atom atom
  | Star atom
  | Seq regex regex
  | Alt regex regex
  | Group nat regex

fun lits :: "string \<Rightarrow> regex" where
  "lits [] = Eps"
| "lits (c # cs) = Seq (Atom (Lit c)) (lits cs)"

fun groups_of :: "regex \<Rightarrow> nat" where
  "groups_of (Seq a b) = max (groups_of a) (groups_of b)"
| "groups_of (Alt a b) = max (groups_of a) (groups_of b)"
| "groups_of (Group k a) = max k (groups_of a)"
| "groups_of _ = 0"

subsection \<open>Backtracking search\<close>

text \<open>
  Python's engine tries the alternatives of a pattern in a fixed order (a greedy star takes as
  many characters as it can before it gives one back, the left branch of \<open>|\<close> goes first) and
  reports the first way that succeeds.  \<open>outcomes r s g\<close> lists all the ways \<open>r\<close> matches a
  prefix of \<open>s\<close>, in that order: each outcome is the text left over together with the groups
  captured so far (most recent first).
\<close>

type_synonym caps = "(nat \<times> string) list"

fun star_outcomes :: "atom \<Rightarrow> string \<Rightarrow> string list" where
  "star_outcomes a [] = [[]]"
| "star_outcomes a (c # cs) =
     (if atom_ok a c then star_outcomes a cs @ [c # cs] else [c # cs])"

primrec outcomes :: "regex \<Rightarrow> string \<Rightarrow> caps \<Rightarrow> (string \<times> caps) list" where
  "outcomes Eps s g = [(s, g)]"
| "outcomes (Atom a) s g =
     (case s of [] \<Rightarrow> [] | c # cs \<Rightarrow> if atom_ok a c then [(cs, g)] else [])"
| "outcomes (Star a) s g = map (\<lambda>rest. (rest, g)) (star_outcomes a s)"
| "outcomes (Seq r1 r2) s g =
     concat (map (\<lambda>(rest, g'). outcomes r2 rest g') (outcomes r1 s g))"
| "outcomes (Alt r1 r2) s g = outcomes r1 s g @ outcomes r2 s g"
| "outcomes (Group k r) s g =
     map (\<lambda>(rest, g'). (rest, (k, take (length s - length rest) s) # g')) (outcomes r s g)"

text \<open>
  A match that starts at the head of \<open>s\<close>: the first outcome.  Group 0 is the matched text.
\<close>

definition match_here :: "regex \<Rightarrow> string \<Rightarrow> (string \<times> caps) option" where
  "match_here r s =
     (case outcomes r s [] of
        [] \<Rightarrow> None
      | (rest, g) # _ \<Rightarrow> Some (rest, (0, take (length s - length rest) s) # g))"

definition group :: "caps \<Rightarrow> nat \<Rightarrow> string" where
  "group g k = (case map_of g k of None \<Rightarrow> [] | Some t \<Rightarrow> t)"

text \<open>
  \<open>re.sub\<close> and \<open>re.findall\<close> walk over the text in the same way: the leftmost match is taken,
  the walk resumes behind it, and a character at which nothing matches is passed over.
  \<open>pieces\<close> is that walk.  (The last branch is the one for an empty match; none of the
  script's patterns can match the empty string.)
\<close>

datatype piece = Keep char | Hit caps

fun pieces :: "regex \<Rightarrow> string \<Rightarrow> piece list" where
  "pieces r [] = (case match_here r [] of None \<Rightarrow> [] | Some (rest, g) \<Rightarrow> [Hit g])"
| "pieces r (c # cs) =
     (case match_here r (c # cs) of
        None \<Rightarrow> Keep c # pieces r cs
      | Some (rest, g) \<Rightarrow>
          if length rest \<le> length cs then Hit g # pieces r rest
          else Hit g # Keep c # pieces r cs)"

definition re_findall :: "regex \<Rightarrow> string \<Rightarrow> caps list" where
  "re_findall r s = concat (map (\<lambda>p. case p of Keep c \<Rightarrow> [] | Hit g \<Rightarrow> [g]) (pieces r s))"

subsection \<open>Replacement templates\<close>

text \<open>
  Exceptions are values.  \<open>ReError\<close> stands for what the \<open>re\<close> module raises when it compiles
  a replacement template (\<open>re.error\<close>, or the \<open>IndexError\<close> of an unknown group name).
\<close>

datatype exn = EOFError | UnicodeDecodeError | UnicodeEncodeError | ReError | OSError

text \<open>
  \<open>re.sub\<close> compiles its replacement string before it searches (\<open>parse_template\<close> of the
  \<open>re\<close> module): a backslash and the character behind it form one token; a backslash before
  a digit starts a group reference of one or two digits, or an octal escape of three; the
  escapes \<^verbatim>\<open>\a \b \f \n \r \t \v \\\<close> stand for one character; a backslash before another
  ASCII letter is an error and before anything else it stays, with that character, as it
  is; a reference to a group the pattern does not have is an error.
  In \<^verbatim>\<open>\g<name>\<close> only decimal group numbers are modelled, any other name is an error.
\<close>

datatype titem = TLit char | TGroup nat

definition is_digit :: "char \<Rightarrow> bool" where
  "is_digit c = (48 \<le> (of_char c :: nat) \<and> (of_char c :: nat) \<le> 57)"

definition is_octdigit :: "char \<Rightarrow> bool" where
  "is_octdigit c = (48 \<le> (of_char c :: nat) \<and> (of_char c :: nat) \<le> 55)"

definition is_ascii_letter :: "char \<Rightarrow> bool" where
  "is_ascii_letter c =
     ((65 \<le> (of_char c :: nat) \<and> (of_char c :: nat) \<le> 90) \<or>
      (97 \<le> (of_char c :: nat) \<and> (of_char c :: nat) \<le> 122))"

definition digit_val :: "char \<Rightarrow> nat" where
  "digit_val c = of_char c - 48"

definition decimal :: "string \<Rightarrow> nat" where
  "decimal ds = foldl (\<lambda>v d. 10 * v + digit_val d) 0 ds"

definition ESCAPES :: "char \<Rightarrow> char option" where
  "ESCAPES c =
     (if c = CHR ''a'' then Some (CHR 0x07) else if c = CHR ''b'' then Some (CHR 0x08)
      else if c = CHR ''f'' then Some (CHR 0x0C) else if c = CHR ''n'' then Some NL
      else if c = CHR ''r'' then Some (CHR 0x0D) else if c = CHR ''t'' then Some (CHR 0x09)
      else if c = CHR ''v'' then Some (CHR 0x0B) else if c = BS then Some BS
      else None)"

fun getuntil :: "char \<Rightarrow> string \<Rightarrow> string option" where
  "getuntil t [] = None"
| "getuntil t (c # cs) =
     (if c = t then Some []
      else case getuntil t cs of None \<Rightarrow> None | Some name \<Rightarrow> Some (c # name))"

definition addgroup :: "nat \<Rightarrow> nat \<Rightarrow> nat \<Rightarrow> exn + (titem list \<times> nat)" where
  "addgroup n index used = (if index > n then Inl ReError else Inr ([TGroup index], used))"

text \<open>
  \<open>template_token n c rest\<close>: the token that starts with a backslash followed by \<open>c\<close>, for a
  pattern with \<open>n\<close> groups; it returns the items of the token and how many characters of
  \<open>rest\<close> (the text behind \<open>c\<close>) belong to it.
\<close>

definition template_token :: "nat \<Rightarrow> char \<Rightarrow> string \<Rightarrow> exn + (titem list \<times> nat)" where
  "template_token n c rest =
     (if c = CHR ''g'' then
        (case rest of
           [] \<Rightarrow> Inl ReError
         | l # rest1 \<Rightarrow>
             if l \<noteq> CHR ''<'' then Inl ReError
             else (case getuntil (CHR ''>'') rest1 of
                     None \<Rightarrow> Inl ReError
                   | Some name \<Rightarrow>
                       if name \<noteq> [] \<and> list_all is_digit name
                       then addgroup n (decimal name) (length name + 2)
                       else Inl ReError))
      else if c = CHR ''0'' then
        (case rest of
           [] \<Rightarrow> Inr ([TLit (CHR 0x00)], 0)
         | d1 # rest1 \<Rightarrow>
             if \<not> is_octdigit d1 then Inr ([TLit (CHR 0x00)], 0)
             else (case rest1 of
                     [] \<Rightarrow> Inr ([TLit (char_of (digit_val d1))], 1)
                   | d2 # rest2 \<Rightarrow>
                       if is_octdigit d2
                       then Inr ([TLit (char_of (8 * digit_val d1 + digit_val d2))], 2)
                       else Inr ([TLit (char_of (digit_val d1))], 1)))
      else if is_digit c then
        (case rest of
           [] \<Rightarrow> addgroup n (digit_val c) 0
         | d # rest1 \<Rightarrow>
             if \<not> is_digit d then addgroup n (digit_val c) 0
             else (case rest1 of
                     [] \<Rightarrow> addgroup n (10 * digit_val c + digit_val d) 1
                   | e # rest2 \<Rightarrow>
                       if is_octdigit c \<and> is_octdigit d \<and> is_octdigit e
                       then (let v = 64 * digit_val c + 8 * digit_val d + digit_val e
                             in if v > 255 then Inl ReError else Inr ([TLit (char_of v)], 2))
                       else addgroup n (10 * digit_val c + digit_val d) 1))
      else (case ESCAPES c of
              Some x \<Rightarrow> Inr ([TLit x], 0)
            | None \<Rightarrow> if is_ascii_letter c then Inl ReError else Inr ([TLit BS, TLit c], 0)))"

fun parse_template :: "nat \<Rightarrow> string \<Rightarrow> exn + titem list" where
  "parse_template n [] = Inr []"
| "parse_template n [c] = (if c = BS then Inl ReError else Inr [TLit c])"
| "parse_template n (c # d # rest) =
     (if c \<noteq> BS then
        (case parse_template n (d # rest) of Inl e \<Rightarrow> Inl e | Inr items \<Rightarrow> Inr (TLit c # items))
      else
        (case template_token n d rest of
           Inl e \<Rightarrow> Inl e
         | Inr (tok, used) \<Rightarrow>
             (case parse_template n (drop used rest) of
                Inl e \<Rightarrow> Inl e
              | Inr items \<Rightarrow> Inr (tok @ items))))"

definition expand_template :: "titem list \<Rightarrow> caps \<Rightarrow> string" where
  "expand_template items g =
     concat (map (\<lambda>i. case i of TLit c \<Rightarrow> [c] | TGroup k \<Rightarrow> group g k) items)"

definition render :: "titem list \<Rightarrow> piece \<Rightarrow> string" where
  "render items p = (case p of Keep c \<Rightarrow> [c] | Hit g \<Rightarrow> expand_template items g)"

definition re_sub :: "regex \<Rightarrow> string \<Rightarrow> string \<Rightarrow> exn + string" where
  "re_sub pat repl s =
     (case parse_template (groups_of pat) repl of
        Inl e \<Rightarrow> Inl e
      | Inr items \<Rightarrow> Inr (concat (map (render items) (pieces pat s))))"

section \<open>The rules of the script\<close>

text \<open>
  \<^verbatim>\<open>
  FIND = {"(\"[^\\n]*)(a-zA-Z|A-Za-z)([^\\n]*\")": f"\\1\\2{escape_str(WHITELIST_CHARS, False)}\\3",
          "('[^\\n]*)(a-zA-Z|A-Za-z)([^\\n]*')": f"\\1\\2{escape_str(WHITELIST_CHARS, True)}\\3",
           }
  \<close>
  The two patterns differ in the quote only.  Their second group is the alternation of the
  two six-character texts \<open>a-zA-Z\<close> and \<open>A-Za-z\<close> (there are no square brackets around them).
\<close>

definition find_pattern :: "char \<Rightarrow> regex" where
  "find_pattern q =
     Seq (Group 1 (Seq (Atom (Lit q)) (Star (NotLit NL))))
       (Seq (Group 2 (Alt (lits ''a-zA-Z'') (lits ''A-Za-z'')))
            (Group 3 (Seq (Star (NotLit NL)) (Atom (Lit q)))))"

definition find_replace :: "string \<Rightarrow> bool \<Rightarrow> string" where
  "find_replace whitelist single_quote =
     [BS, CHR ''1'', BS, CHR ''2''] @ escape_str whitelist single_quote @ [BS, CHR ''3'']"

definition FIND :: "string \<Rightarrow> (regex \<times> string) list" where
  "FIND whitelist =
     [(find_pattern DQ, find_replace whitelist False),
      (find_pattern SQ, find_replace whitelist True)]"

text \<open>
  \<^verbatim>\<open>
  content = re.sub(r"string allowSpecialChars.*\)",
                   f"string allowSpecialChars = \"{escape_str(WHITELIST_CHARS, True)}\")", content)
  \<close>
\<close>

definition targeted_pattern :: regex where
  "targeted_pattern =
     Seq (lits ''string allowSpecialChars'') (Seq (Star Dot) (Atom (Lit (CHR '')''))))"

definition targeted_replace :: "string \<Rightarrow> string" where
  "targeted_replace whitelist =
     ''string allowSpecialChars = '' @ [DQ] @ escape_str whitelist True @ [DQ] @ '')''"

definition targeted_rewrite :: "string \<Rightarrow> string \<Rightarrow> exn + string" where
  "targeted_rewrite whitelist content =
     re_sub targeted_pattern (targeted_replace whitelist) content"

section \<open>The run of the script\<close>

subsection \<open>Files, console and standard input\<close>

text \<open>
  What the script does to the outside is kept as a trace of events.  The file system is a
  parameter: \<open>read_text\<close> is \<^verbatim>\<open>open(path, 'r').read()\<close> and \<open>write_text\<close> is
  \<^verbatim>\<open>open(path, 'w').write(content)\<close>, each under the platform's default encoding or under
  UTF-8; either may raise, and a write that raises may still have changed the file.
\<close>

datatype encoding = PlatformDefault | UTF8

datatype event =
    Prompt string
  | Print string
  | ReadAttempt encoding string
  | WriteAttempt encoding string string

record 'fs platform =
  read_text :: "encoding \<Rightarrow> string \<Rightarrow> 'fs \<Rightarrow> exn + string"
  write_text :: "encoding \<Rightarrow> string \<Rightarrow> string \<Rightarrow> 'fs \<Rightarrow> exn option \<times> 'fs"

record 'fs world =
  files :: 'fs
  trace :: "event list"

definition emit :: "event \<Rightarrow> 'fs world \<Rightarrow> 'fs world" where
  "emit e w = w\<lparr>trace := trace w @ [e]\<rparr>"

text \<open>
  \<^verbatim>\<open>
  try:
      with open(path, 'r') as f:
          content = f.read()
  except UnicodeEncodeError:
      with open(path, 'r', encoding='utf-8') as f:
          content = f.read()
  \<close>
\<close>

definition read_file :: "'fs platform \<Rightarrow> string \<Rightarrow> 'fs world \<Rightarrow> (exn + string) \<times> 'fs world" where
  "read_file P path w =
     (let w1 = emit (ReadAttempt PlatformDefault path) w in
      case read_text P PlatformDefault path (files w) of
        Inr content \<Rightarrow> (Inr content, w1)
      | Inl e \<Rightarrow>
          if e = UnicodeEncodeError
          then (read_text P UTF8 path (files w), emit (ReadAttempt UTF8 path) w1)
          else (Inl e, w1))"

text \<open>
  \<^verbatim>\<open>
  try:
      with open(path, 'w') as f:
          f.write(content)
  except UnicodeEncodeError:
      with open(path, 'w', encoding='utf-8') as f:
          f.write(content)
  \<close>
\<close>

definition write_file ::
  "'fs platform \<Rightarrow> string \<Rightarrow> string \<Rightarrow> 'fs world \<Rightarrow> exn option \<times> 'fs world" where
  "write_file P path content w =
     (let w1 = emit (WriteAttempt PlatformDefault path content) w in
      case write_text P PlatformDefault path content (files w) of
        (None, fs1) \<Rightarrow> (None, w1\<lparr>files := fs1\<rparr>)
      | (Some e, fs1) \<Rightarrow>
          if e = UnicodeEncodeError
          then (case write_text P UTF8 path content fs1 of
                  (r, fs2) \<Rightarrow> (r, (emit (WriteAttempt UTF8 path content) w1)\<lparr>files := fs2\<rparr>))
          else (Some e, w1\<lparr>files := fs1\<rparr>))"

subsection \<open>Paths\<close>

text \<open>\<open>os.path.join\<close> of two components and the extension of \<open>os.path.splitext\<close> (POSIX).\<close>

definition path_join :: "string \<Rightarrow> string \<Rightarrow> string" where
  "path_join a b =
     (if b \<noteq> [] \<and> hd b = CHR ''/'' then b
      else if a = [] \<or> last a = CHR ''/'' then a @ b
      else a @ ''/'' @ b)"

definition splitext_ext :: "string \<Rightarrow> string" where
  "splitext_ext p =
     (let name = rev (takeWhile (\<lambda>c. c \<noteq> CHR ''/'') (rev p));
          ext = CHR ''.'' # rev (takeWhile (\<lambda>c. c \<noteq> CHR ''.'') (rev name));
          stem = take (length name - length ext) name
      in if CHR ''.'' \<in> set name \<and> (\<exists>c \<in> set stem. c \<noteq> CHR ''.'') then ext else [])"

subsection \<open>The loop over the files\<close>

definition success_message :: "string \<Rightarrow> string" where
  "success_message path = ''Successfully modified '' @ path"

text \<open>
  \<^verbatim>\<open>
  for search, replace in FIND.items():
      content = re.sub(search, replace, content)
      if re.findall(search, content):
          print(f"Successfully modified {path}")
      try: ... write ... except UnicodeEncodeError: ... write with utf-8 ...
  \<close>
  The write is inside the loop: the file is written once after each rule.
\<close>

fun apply_rules ::
  "'fs platform \<Rightarrow> string \<Rightarrow> (regex \<times> string) list \<Rightarrow> string \<Rightarrow> 'fs world
     \<Rightarrow> exn option \<times> 'fs world" where
  "apply_rules P path [] content w = (None, w)"
| "apply_rules P path ((search, replace) # rules) content w =
     (case re_sub search replace content of
        Inl e \<Rightarrow> (Some e, w)
      | Inr content' \<Rightarrow>
          (let w1 = (if re_findall search content' \<noteq> []
                     then emit (Print (success_message path)) w else w)
           in case write_file P path content' w1 of
                (Some e, w2) \<Rightarrow> (Some e, w2)
              | (None, w2) \<Rightarrow> apply_rules P path rules content' w2))"

definition process_file ::
  "'fs platform \<Rightarrow> string \<Rightarrow> string \<Rightarrow> string \<Rightarrow> 'fs world \<Rightarrow> exn option \<times> 'fs world" where
  "process_file P whitelist root file w =
     (let path = path_join root file in
      if file = ''Extensions.cs'' then
        (case read_file P path w of
           (Inl e, w1) \<Rightarrow> (Some e, w1)
         | (Inr content, w1) \<Rightarrow>
             (case targeted_rewrite whitelist content of
                Inl e \<Rightarrow> (Some e, w1)
              | Inr content' \<Rightarrow>
                  write_file P path content' (emit (Print (success_message path)) w1)))
      else if splitext_ext file = ''.cs'' then
        (case read_file P path w of
           (Inl e, w1) \<Rightarrow> (Some e, w1)
         | (Inr content, w1) \<Rightarrow> apply_rules P path (FIND whitelist) content w1)
      else (None, w))"

fun process_files ::
  "'fs platform \<Rightarrow> string \<Rightarrow> string \<Rightarrow> string list \<Rightarrow> 'fs world \<Rightarrow> exn option \<times> 'fs world" where
  "process_files P whitelist root [] w = (None, w)"
| "process_files P whitelist root (file # fs) w =
     (case process_file P whitelist root file w of
        (Some e, w1) \<Rightarrow> (Some e, w1)
      | (None, w1) \<Rightarrow> process_files P whitelist root fs w1)"

text \<open>
  \<open>os.walk\<close> yields, for every directory of the tree, its path and the names of its files;
  that list is a parameter of the run.
\<close>

fun walk_loop ::
  "'fs platform \<Rightarrow> string \<Rightarrow> (string \<times> string list) list \<Rightarrow> 'fs world
     \<Rightarrow> exn option \<times> 'fs world" where
  "walk_loop P whitelist [] w = (None, w)"
| "walk_loop P whitelist ((root, fs) # dirs) w =
     (case process_files P whitelist root fs w of
        (Some e, w1) \<Rightarrow> (Some e, w1)
      | (None, w1) \<Rightarrow> walk_loop P whitelist dirs w1)"

text \<open>
  \<^verbatim>\<open>WHITELIST_CHARS = input("Enter the chararacters you want to allow: ")\<close>

  \<open>input\<close> prints the prompt and returns the next line of standard input, or raises
  \<open>EOFError\<close> when there is none.
\<close>

definition PROMPT :: string where
  "PROMPT = ''Enter the chararacters you want to allow: ''"

definition main ::
  "'fs platform \<Rightarrow> (string \<times> string list) list \<Rightarrow> string list \<Rightarrow> 'fs
     \<Rightarrow> exn option \<times> 'fs world" where
  "main P tree stdin fs0 =
     (let w0 = \<lparr>files = fs0, trace = [Prompt PROMPT]\<rparr> in
      case stdin of
        [] \<Rightarrow> (Some EOFError, w0)
      | WHITELIST_CHARS # _ \<Rightarrow> walk_loop P WHITELIST_CHARS tree w0)"

subsection \<open>A platform to run the script on\<close>

text \<open>
  A file system kept as an association list from paths to texts, on a platform whose default
  encoding is ASCII: reading a text with a character above 127 under the default encoding
  raises \<open>UnicodeDecodeError\<close>, writing one raises \<open>UnicodeEncodeError\<close> after the file has
  been truncated; UTF-8 reads and writes every text.  Line endings are kept as they are
  (no translation of carriage returns).
\<close>

definition is_ascii :: "string \<Rightarrow> bool" where
  "is_ascii s = list_all (\<lambda>c. (of_char c :: nat) < 128) s"

definition ascii_platform :: "(string \<times> string) list platform" where
  "ascii_platform =
     \<lparr>read_text = (\<lambda>enc path fs.
         case map_of fs path of
           None \<Rightarrow> Inl OSError
         | Some text \<Rightarrow>
             if enc = PlatformDefault \<and> \<not> is_ascii text then Inl UnicodeDecodeError
             else Inr text),
      write_text = (\<lambda>enc path text fs.
         if enc = PlatformDefault \<and> \<not> is_ascii text
         then (Some UnicodeEncodeError, (path, []) # fs)
         else (None, (path, text) # fs))\<rparr>"

section \<open>Notions used to state the properties\<close>

text \<open>
  \<open>bare s\<close> lists the characters of \<open>s\<close> that are not part of a backslash escape pair, \<open>s\<close>
  being read from left to right: a backslash and the character behind it form a pair; a
  backslash at the very end has no partner and is bare.
\<close>

fun bare :: "string \<Rightarrow> string" where
  "bare [] = []"
| "bare [c] = [c]"
| "bare (c # d # r) = (if c = BS then bare r else c # bare (d # r))"

text \<open>What the first two replacements of \<open>escape_str\<close> do together, in one pass.\<close>

definition dbl :: "string \<Rightarrow> string" where
  "dbl s = concat (map (\<lambda>c. if c = BS then [BS, BS] else [c]) s)"

fun esc2 :: "string \<Rightarrow> string" where
  "esc2 [] = []"
| "esc2 (c # cs) =
     (if c = BS then (case cs of [] \<Rightarrow> [BS, BS]
                      | d # ds \<Rightarrow> if d = CHR ''n'' then [BS, BS, BS, CHR ''n''] @ esc2 ds
                                 else [BS, BS] @ esc2 cs)
      else c # esc2 cs)"

definition qesc :: "char \<Rightarrow> string \<Rightarrow> string" where
  "qesc q s = concat (map (\<lambda>c. if c = q then [BS, q] else [c]) s)"

text \<open>\<open>occurs x s\<close>: the text \<open>x\<close> occurs somewhere in \<open>s\<close>.\<close>

fun occurs :: "string \<Rightarrow> string \<Rightarrow> bool" where
  "occurs x [] = (x = [])"
| "occurs x (c # cs) = (prefix x (c # cs) \<or> occurs x cs)"

text \<open>The lines of a text (split at line feeds) and the walk of one line after the other.\<close>

fun split_lines :: "string \<Rightarrow> string list" where
  "split_lines [] = [[]]"
| "split_lines (c # cs) =
     (if c = NL then [] # split_lines cs
      else (case split_lines cs of l # ls \<Rightarrow> (c # l) # ls | [] \<Rightarrow> [[c]]))"

fun join_lines :: "piece list list \<Rightarrow> piece list" where
  "join_lines [] = []"
| "join_lines [l] = l"
| "join_lines (l # ls) = l @ Keep NL # join_lines ls"

text \<open>
  \<open>nl_free r\<close>: no atom of \<open>r\<close> accepts a line feed.  \<open>nonnull r\<close>: \<open>r\<close> cannot match the empty
  text.
\<close>

fun nl_free :: "regex \<Rightarrow> bool" where
  "nl_free Eps = True"
| "nl_free (Atom a) = (\<not> atom_ok a NL)"
| "nl_free (Star a) = (\<not> atom_ok a NL)"
| "nl_free (Seq a b) = (nl_free a \<and> nl_free b)"
| "nl_free (Alt a b) = (nl_free a \<and> nl_free b)"
| "nl_free (Group k a) = nl_free a"

fun nonnull :: "regex \<Rightarrow> bool" where
  "nonnull Eps = False"
| "nonnull (Atom a) = True"
| "nonnull (Star a) = False"
| "nonnull (Seq a b) = (nonnull a \<or> nonnull b)"
| "nonnull (Alt a b) = (nonnull a \<and> nonnull b)"
| "nonnull (Group k a) = nonnull a"

text \<open>
  \<open>line_of s\<close> is what is left of the current line at the head of \<open>s\<close>.  \<open>ends_line q xs\<close>: the
  first outcome of \<open>xs\<close>, if there is one, leaves no \<open>q\<close> on the rest of its line.
\<close>

definition line_of :: "string \<Rightarrow> string" where
  "line_of s = takeWhile (\<lambda>c. c \<noteq> NL) s"

definition ends_line :: "char \<Rightarrow> (string \<times> caps) list \<Rightarrow> bool" where
  "ends_line q xs = (case xs of [] \<Rightarrow> True | (rest, g) # _ \<Rightarrow> q \<notin> set (line_of rest))"

text \<open>
  What follows a greedy star inside a group: \<open>F\<close> is given the text that the group has
  taken so far and the text that is left; the longest run of the star is tried first.
\<close>

definition after_star ::
  "atom \<Rightarrow> (string \<Rightarrow> string \<Rightarrow> (string \<times> caps) list) \<Rightarrow> string \<Rightarrow> string
     \<Rightarrow> (string \<times> caps) list" where
  "after_star a F p t =
     concat (map (\<lambda>rest. F (p @ take (length t - length rest) t) rest) (star_outcomes a t))"

text \<open>
  What \<open>re.sub\<close> emits for the escaped whitelist of a replacement, that is \<open>escape_str\<close>
  followed by the compilation of the template: a backslash of the whitelist comes out once
  (the doubled backslash is one escape), a backslash before \<open>n\<close> comes out as a backslash and
  a line feed, and the quote \<open>q\<close> comes out behind a backslash.
\<close>

fun emitted :: "char \<Rightarrow> string \<Rightarrow> string" where
  "emitted q [] = []"
| "emitted q (c # cs) =
     (if c = BS then (case cs of [] \<Rightarrow> [BS]
                      | d # ds \<Rightarrow> if d = CHR ''n'' then BS # NL # emitted q ds
                                 else BS # emitted q cs)
      else if c = q then BS # q # emitted q cs
      else c # emitted q cs)"

text \<open>
  Lines put together again, and \<open>inserted_once ins l out\<close>: \<open>out\<close> is \<open>l\<close> with the text \<open>ins\<close>
  put in at one place.
\<close>

fun join_text :: "string list \<Rightarrow> string" where
  "join_text [] = []"
| "join_text [l] = l"
| "join_text (l # ls) = l @ NL # join_text ls"

definition inserted_once :: "string \<Rightarrow> string \<Rightarrow> string \<Rightarrow> bool" where
  "inserted_once ins l out =
     list_ex (\<lambda>k. out = take k l @ ins @ drop k l) [0..<Suc (length l)]"

text \<open>\<open>group_free r\<close>: \<open>r\<close> has no group.\<close>

fun group_free :: "regex \<Rightarrow> bool" where
  "group_free (Seq a b) = (group_free a \<and> group_free b)"
| "group_free (Alt a b) = (group_free a \<and> group_free b)"
| "group_free (Group k a) = False"
| "group_free _ = True"

section \<open>Properties of \<open>escape_str\<close>\<close>

lemma replace_scan_absent:
  "old \<noteq> [] \<Longrightarrow> hd old \<notin> set s \<Longrightarrow> replace_scan old new s = s"
  by (induction s) (auto simp: prefix_def neq_Nil_conv)

lemma replace_scan_single:
  "replace_scan [x] new s = concat (map (\<lambda>c. if c = x then new else [c]) s)"
  by (induction s) auto

lemma dbl_simps:
  "dbl [] = []" "dbl (BS # s) = BS # BS # dbl s" "c \<noteq> BS \<Longrightarrow> dbl (c # s) = c # dbl s"
  by (simp_all add: dbl_def)

lemma prefix_bn_dbl:
  "prefix [BS, CHR ''n''] (BS # dbl s) \<longleftrightarrow> (\<exists>t. s = CHR ''n'' # t)"
proof (cases s)
  case Nil
  then show ?thesis by (simp add: dbl_simps)
next
  case (Cons d ds)
  then show ?thesis by (cases "d = BS") (auto simp: dbl_simps)
qed

lemma replace_scan_backslash_n:
  "replace_scan [BS, CHR ''n''] [BS, BS, CHR ''n''] (dbl s) = esc2 s"
proof (induction s rule: esc2.induct)
  case 1
  show ?case by (simp add: dbl_simps)
next
  case (2 c cs)
  show ?case
  proof (cases "c = BS")
    case False
    with 2 show ?thesis by (simp add: dbl_simps)
  next
    case True
    show ?thesis
    proof (cases cs)
      case Nil
      with True show ?thesis by (simp add: dbl_simps)
    next
      case (Cons d ds)
      show ?thesis
      proof (cases "d = CHR ''n''")
        case True
        with \<open>c = BS\<close> Cons 2(1) show ?thesis by (simp add: dbl_simps)
      next
        case False
        have "\<not> prefix [BS, CHR ''n''] (BS # dbl cs)"
          using False Cons prefix_bn_dbl[of cs] by simp
        moreover have "replace_scan [BS, CHR ''n''] [BS, BS, CHR ''n''] (dbl cs) = esc2 cs"
          using 2(2) \<open>c = BS\<close> Cons False by simp
        ultimately show ?thesis
          using \<open>c = BS\<close> Cons False by (simp add: dbl_simps)
      qed
    qed
  qed
qed

lemma qesc_simps:
  "qesc q [] = []" "qesc q (q # s) = BS # q # qesc q s"
  "c \<noteq> q \<Longrightarrow> qesc q (c # s) = c # qesc q s"
  by (simp_all add: qesc_def)

lemma bare_cons: "c \<noteq> BS \<Longrightarrow> bare (c # r) = c # bare r"
  by (cases r) auto

lemma bare_escaped:
  assumes q: "q \<noteq> BS" "q \<noteq> CHR ''n''"
  shows "BS \<notin> set (bare (qesc q (esc2 s))) \<and> q \<notin> set (bare (qesc q (esc2 s)))"
proof (induction s rule: esc2.induct)
  case 1
  show ?case by (simp add: qesc_simps)
next
  case (2 c cs)
  show ?case
  proof (cases "c = BS")
    case False
    note nb = this
    show ?thesis
    proof (cases "c = q")
      case True
      with nb 2(3) show ?thesis by (simp add: qesc_simps)
    next
      case False
      with nb 2(3) show ?thesis by (simp add: qesc_simps bare_cons)
    qed
  next
    case True
    show ?thesis
    proof (cases cs)
      case Nil
      with True q show ?thesis by (simp add: qesc_simps)
    next
      case (Cons d ds)
      show ?thesis
      proof (cases "d = CHR ''n''")
        case True
        with \<open>c = BS\<close> Cons 2(1) q show ?thesis by (simp add: qesc_simps)
      next
        case False
        with \<open>c = BS\<close> Cons 2(2) q show ?thesis by (simp add: qesc_simps)
      qed
    qed
  qed
qed

lemma escape_str_alt:
  "escape_str s f = qesc (if f then SQ else DQ) (esc2 s)"
  using replace_scan_backslash_n[of s]
  by (simp add: escape_str_def str_replace_def replace_scan_single dbl_def qesc_def)

lemma esc2_id: "BS \<notin> set w \<Longrightarrow> esc2 w = w"
proof (induction w)
  case Nil
  show ?case by simp
next
  case (Cons c w)
  then have "c \<noteq> BS" "esc2 w = w" by auto
  then show ?case by simp
qed

text \<open>
  Claim C5.  For a whitelist that contains a backslash, a single quote and a double quote,
  \<open>escape_str\<close> with the double-quote flag (\<open>single_quote = False\<close>) leaves no bare double
  quote and no bare backslash, and \<open>escape_str\<close> with the single-quote flag leaves no bare
  single quote and no bare backslash; a character is bare when, reading from left to right,
  it is not taken as part of a backslash escape pair.
\<close>
theorem escape_str_no_unescaped:
  assumes "BS \<in> set w" "SQ \<in> set w" "DQ \<in> set w"
  shows "DQ \<notin> set (bare (escape_str w False)) \<and> BS \<notin> set (bare (escape_str w False)) \<and>
         SQ \<notin> set (bare (escape_str w True)) \<and> BS \<notin> set (bare (escape_str w True))"
  using bare_escaped[of DQ w] bare_escaped[of SQ w]
  by (simp add: escape_str_alt)

text \<open>The whitelist backslash, single quote, double quote satisfies the hypotheses of C5.\<close>
theorem escape_str_no_unescaped_witness:
  "BS \<in> set [BS, SQ, DQ] \<and> SQ \<in> set [BS, SQ, DQ] \<and> DQ \<in> set [BS, SQ, DQ]
    \<and> escape_str [BS, SQ, DQ] False = [BS, BS, SQ, BS, DQ]
    \<and> escape_str [BS, SQ, DQ] True = [BS, BS, BS, SQ, DQ]
    \<and> DQ \<notin> set (bare (escape_str [BS, SQ, DQ] False))
    \<and> BS \<notin> set (bare (escape_str [BS, SQ, DQ] False))
    \<and> SQ \<notin> set (bare (escape_str [BS, SQ, DQ] True))
    \<and> BS \<notin> set (bare (escape_str [BS, SQ, DQ] True))"
  using escape_str_no_unescaped[of "[BS, SQ, DQ]"]
  by (simp add: escape_str_def str_replace_def)

text \<open>
  Claim C9.  When \<open>s\<close> contains no backslash and no occurrence of the quote that the flag
  selects (the single quote when the flag is true, the double quote otherwise),
  \<open>escape_str s flag\<close> is \<open>s\<close>.
\<close>
theorem escape_str_identity:
  assumes "BS \<notin> set s" "(if single_quote then SQ else DQ) \<notin> set s"
  shows "escape_str s single_quote = s"
  using assms by (cases single_quote) (simp_all add: escape_str_def str_replace_def replace_scan_absent)

text \<open>The string \<open>a-z\<close> with the single-quote flag satisfies the hypotheses of C9.\<close>
theorem escape_str_identity_witness:
  "BS \<notin> set ''a-z'' \<and> (if True then SQ else DQ) \<notin> set ''a-z'' \<and> escape_str ''a-z'' True = ''a-z''"
  using escape_str_identity[of "''a-z''" True] by simp


section \<open>Properties of the search\<close>

lemma star_outcomes_length: "rest \<in> set (star_outcomes a s) \<Longrightarrow> length rest \<le> length s"
  by (induction s) (auto split: if_splits)

lemma outcomes_length:
  "(rest, g') \<in> set (outcomes r s g) \<Longrightarrow>
     length rest \<le> length s \<and> (nonnull r \<longrightarrow> length rest < length s)"
proof (induction r arbitrary: s g rest g')
  case Eps
  then show ?case by simp
next
  case (Atom a)
  then show ?case by (auto split: list.splits if_splits)
next
  case (Star a)
  then show ?case by (auto dest: star_outcomes_length)
next
  case (Seq r1 r2)
  from Seq.prems obtain mid g1 where
    m1: "(mid, g1) \<in> set (outcomes r1 s g)" and m2: "(rest, g') \<in> set (outcomes r2 mid g1)"
    by auto
  from Seq.IH(1)[OF m1] Seq.IH(2)[OF m2] show ?case by auto
next
  case (Alt r1 r2)
  then show ?case by auto
next
  case (Group k r)
  then show ?case by auto
qed

lemma star_outcomes_split:
  "\<not> atom_ok a NL \<Longrightarrow> rest \<in> set (star_outcomes a s) \<Longrightarrow> \<exists>m. s = m @ rest \<and> NL \<notin> set m"
proof (induction s)
  case Nil
  then show ?case by simp
next
  case (Cons c cs)
  show ?case
  proof (cases "rest = c # cs")
    case True
    then show ?thesis by simp
  next
    case False
    with Cons.prems have ok: "atom_ok a c" and "rest \<in> set (star_outcomes a cs)"
      by (auto split: if_splits)
    with Cons.IH Cons.prems(1) obtain m where "cs = m @ rest" "NL \<notin> set m" by blast
    moreover from ok Cons.prems(1) have "c \<noteq> NL" by auto
    ultimately have "c # cs = (c # m) @ rest \<and> NL \<notin> set (c # m)" by simp
    then show ?thesis by blast
  qed
qed

lemma outcomes_split:
  "nl_free r \<Longrightarrow> (rest, g') \<in> set (outcomes r s g) \<Longrightarrow> \<exists>m. s = m @ rest \<and> NL \<notin> set m"
proof (induction r arbitrary: s g rest g')
  case Eps
  then show ?case by simp
next
  case (Atom a)
  then obtain c where "s = c # rest" "atom_ok a c" by (auto split: list.splits if_splits)
  with Atom.prems(1) have "s = [c] @ rest \<and> NL \<notin> set [c]" by auto
  then show ?case by blast
next
  case (Star a)
  then show ?case by (auto dest: star_outcomes_split)
next
  case (Seq r1 r2)
  from Seq.prems obtain mid g1 where
    m1: "(mid, g1) \<in> set (outcomes r1 s g)" and m2: "(rest, g') \<in> set (outcomes r2 mid g1)"
    by auto
  from Seq.IH(1)[OF _ m1] Seq.prems(1) obtain ma where a: "s = ma @ mid" "NL \<notin> set ma" by auto
  from Seq.IH(2)[OF _ m2] Seq.prems(1) obtain mb where b: "mid = mb @ rest" "NL \<notin> set mb" by auto
  from a b have "s = (ma @ mb) @ rest \<and> NL \<notin> set (ma @ mb)" by simp
  then show ?case by blast
next
  case (Alt r1 r2)
  then show ?case by auto
next
  case (Group k r)
  then show ?case by auto
qed

lemma lits_outcomes:
  "outcomes (lits x) s g = (if prefix x s then [(drop (length x) s, g)] else [])"
proof (induction x arbitrary: s)
  case Nil
  show ?case by simp
next
  case (Cons c x)
  show ?case
  proof (cases s)
    case Nil
    then show ?thesis by simp
  next
    case (Cons d ds)
    with Cons.IH[of ds] show ?thesis by simp
  qed
qed

lemma seq_star_Nil: "outcomes (Seq (Star a) r) [] g = outcomes r [] g"
  by simp

lemma seq_star_Cons:
  "outcomes (Seq (Star a) r) (c # cs) g =
     (if atom_ok a c then outcomes (Seq (Star a) r) cs g @ outcomes r (c # cs) g
      else outcomes r (c # cs) g)"
  by simp

lemma tail_Nil: "outcomes (Seq (Star a) (Atom (Lit q))) [] g = []"
  by simp

lemma tail_Cons:
  "outcomes (Seq (Star a) (Atom (Lit q))) (c # cs) g =
     (if atom_ok a c then outcomes (Seq (Star a) (Atom (Lit q))) cs g else [])
     @ (if c = q then [(cs, g)] else [])"
  by simp

lemma line_of_simps:
  "line_of [] = []" "line_of (NL # s) = []" "c \<noteq> NL \<Longrightarrow> line_of (c # s) = c # line_of s"
  by (simp_all add: line_of_def)

lemma line_of_append: "NL \<notin> set b \<Longrightarrow> line_of (b @ s) = b @ line_of s"
  by (induction b) (auto simp: line_of_def)

lemma tail_empty:
  assumes a: "\<And>c. atom_ok a c = (c \<noteq> NL)" and q: "q \<noteq> NL"
  shows "(outcomes (Seq (Star a) (Atom (Lit q))) s g = []) = (q \<notin> set (line_of s))"
proof (induction s)
  case Nil
  show ?case by (simp add: line_of_simps)
next
  case (Cons c cs)
  show ?case
  proof (cases "c = NL")
    case True
    with a q show ?thesis unfolding tail_Cons by (simp add: line_of_simps del: outcomes.simps)
  next
    case False
    with a Cons show ?thesis unfolding tail_Cons by (simp add: line_of_simps del: outcomes.simps)
  qed
qed

lemma tail_head:
  assumes a: "\<And>c. atom_ok a c = (c \<noteq> NL)" and q: "q \<noteq> NL"
    and b: "NL \<notin> set b" and z: "q \<notin> set (line_of z)"
  shows "\<exists>ys. outcomes (Seq (Star a) (Atom (Lit q))) (b @ q # z) g = (z, g) # ys"
  using b
proof (induction b)
  case Nil
  have "outcomes (Seq (Star a) (Atom (Lit q))) z g = []"
    using tail_empty[OF a q] z by blast
  then show ?case using a q unfolding append_Nil tail_Cons by (simp del: outcomes.simps)
next
  case (Cons c b)
  then obtain ys where ys: "outcomes (Seq (Star a) (Atom (Lit q))) (b @ q # z) g = (z, g) # ys"
    by auto
  from Cons.prems have "atom_ok a c" using a by auto
  then show ?case unfolding append_Cons tail_Cons using ys by (simp del: outcomes.simps)
qed

lemma ends_line_Nil: "ends_line q []"
  by (simp add: ends_line_def)

lemma ends_line_append: "ends_line q xs \<Longrightarrow> ends_line q ys \<Longrightarrow> ends_line q (xs @ ys)"
  by (cases xs) (auto simp: ends_line_def)

lemma ends_line_concat:
  "(\<And>x. x \<in> set xs \<Longrightarrow> ends_line q (f x)) \<Longrightarrow> ends_line q (concat (map f xs))"
  by (induction xs) (auto simp: ends_line_Nil ends_line_append)

lemma ends_line_tail:
  assumes a: "\<And>c. atom_ok a c = (c \<noteq> NL)" and q: "q \<noteq> NL"
  shows "ends_line q (outcomes (Seq (Star a) (Atom (Lit q))) s g)"
proof (induction s)
  case Nil
  show ?case by (simp add: ends_line_Nil)
next
  case (Cons c cs)
  show ?case
  proof (cases "outcomes (Seq (Star a) (Atom (Lit q))) cs g = []")
    case True
    then have "q \<notin> set (line_of cs)" using tail_empty[OF a q] by blast
    then show ?thesis unfolding tail_Cons using True by (simp add: ends_line_def del: outcomes.simps)
  next
    case False
    then obtain x xs where x: "outcomes (Seq (Star a) (Atom (Lit q))) cs g = x # xs"
      by (cases "outcomes (Seq (Star a) (Atom (Lit q))) cs g") auto
    with Cons have e: "ends_line q (x # xs)" by simp
    show ?thesis
    proof (cases "atom_ok a c")
      case True
      then show ?thesis unfolding tail_Cons using x e by (simp add: ends_line_def del: outcomes.simps)
    next
      case False
      then have "c = NL" using a by simp
      then show ?thesis unfolding tail_Cons using False q by (simp add: ends_line_def del: outcomes.simps)
    qed
  qed
qed

lemma ends_line_Group:
  "ends_line q (outcomes r s g) \<Longrightarrow> ends_line q (outcomes (Group k r) s g)"
  by (cases "outcomes r s g") (auto simp: ends_line_def)

lemma ends_line_Seq:
  "(\<And>s g. ends_line q (outcomes r2 s g)) \<Longrightarrow> ends_line q (outcomes (Seq r1 r2) s g)"
  unfolding outcomes.simps by (rule ends_line_concat) auto

lemma ends_line_find_pattern:
  assumes q: "q \<noteq> NL"
  shows "ends_line q (outcomes (find_pattern q) s g)"
  unfolding find_pattern_def
  by (intro ends_line_Seq ends_line_Group ends_line_tail) (simp_all add: q)

lemma seq_lits_outcomes:
  "outcomes (Seq (lits x) r) s g = (if prefix x s then outcomes r (drop (length x) s) g else [])"
  unfolding outcomes.simps(4) lits_outcomes by simp

lemma take_consumed: "take (length (m @ rest) - length rest) (m @ rest) = m"
  by simp

lemma targeted_match_greedy:
  assumes "NL \<notin> set a" and "CHR '')'' \<notin> set (line_of rest)"
  shows "match_here targeted_pattern (''string allowSpecialChars'' @ a @ '')'' @ rest)
         = Some (rest, [(0, ''string allowSpecialChars'' @ a @ '')'')])"
proof -
  let ?needle = "''string allowSpecialChars''"
  let ?tail = "Seq (Star Dot) (Atom (Lit (CHR '')'')))"
  obtain ys where ys: "outcomes ?tail (a @ CHR '')'' # rest) [] = (rest, []) # ys"
    using tail_head[of Dot "CHR '')''" a rest "[]"] assms by auto
  have "outcomes targeted_pattern (?needle @ a @ '')'' @ rest) []
        = outcomes ?tail (a @ CHR '')'' # rest) []"
    unfolding targeted_pattern_def seq_lits_outcomes by simp
  with ys have "outcomes targeted_pattern (?needle @ a @ '')'' @ rest) [] = (rest, []) # ys"
    by simp
  moreover have "take (length ((?needle @ a @ '')'') @ rest) - length rest) ((?needle @ a @ '')'') @ rest)
                 = ?needle @ a @ '')''"
    by (rule take_consumed)
  ultimately show ?thesis by (simp add: match_here_def del: outcomes.simps)
qed

lemma star_outcomes_local:
  "\<not> atom_ok a NL \<Longrightarrow> star_outcomes a (l @ NL # z) = map (\<lambda>r. r @ NL # z) (star_outcomes a l)"
  by (induction l) auto

lemma outcomes_local:
  "nl_free r \<Longrightarrow> NL \<notin> set l \<Longrightarrow>
     outcomes r (l @ NL # z) g = map (\<lambda>(rest, g'). (rest @ NL # z, g')) (outcomes r l g)"
proof (induction r arbitrary: l g)
  case Eps
  show ?case by simp
next
  case (Atom a)
  then show ?case by (cases l) auto
next
  case (Star a)
  then show ?case by (simp add: star_outcomes_local comp_def)
next
  case (Seq r1 r2)
  have nl: "nl_free r1" "nl_free r2" using Seq.prems(1) by auto
  have inner: "outcomes r2 (rest @ NL # z) g' = map (\<lambda>(rest, g'). (rest @ NL # z, g')) (outcomes r2 rest g')"
    if "(rest, g') \<in> set (outcomes r1 l g)" for rest g'
  proof -
    from outcomes_split[OF nl(1) that] obtain m where "l = m @ rest" by blast
    with Seq.prems(2) have "NL \<notin> set rest" by auto
    then show ?thesis by (rule Seq.IH(2)[OF nl(2)])
  qed
  have "outcomes (Seq r1 r2) (l @ NL # z) g
        = concat (map (\<lambda>(rest, g'). outcomes r2 (rest @ NL # z) g') (outcomes r1 l g))"
    by (simp add: Seq.IH(1)[OF nl(1) Seq.prems(2)] comp_def case_prod_unfold)
  also have "\<dots> = concat (map (\<lambda>(rest, g'). map (\<lambda>(rest, g'). (rest @ NL # z, g')) (outcomes r2 rest g'))
                      (outcomes r1 l g))"
    by (rule arg_cong[where f = concat], rule map_cong) (auto simp: inner)
  also have "\<dots> = map (\<lambda>(rest, g'). (rest @ NL # z, g')) (outcomes (Seq r1 r2) l g)"
    by (simp add: map_concat comp_def case_prod_unfold)
  finally show ?case .
next
  case (Alt r1 r2)
  then show ?case by simp
next
  case (Group k r)
  have nl: "nl_free r" using Group.prems(1) by simp
  have "outcomes (Group k r) (l @ NL # z) g
        = map (\<lambda>(rest, g'). (rest @ NL # z, (k, take (length l - length rest) (l @ NL # z)) # g'))
            (outcomes r l g)"
    by (simp add: Group.IH[OF nl Group.prems(2)] comp_def case_prod_unfold)
  also have "\<dots> = map (\<lambda>(rest, g'). (rest @ NL # z, (k, take (length l - length rest) l) # g'))
            (outcomes r l g)"
    by (rule map_cong) auto
  also have "\<dots> = map (\<lambda>(rest, g'). (rest @ NL # z, g')) (outcomes (Group k r) l g)"
    by (simp add: comp_def case_prod_unfold)
  finally show ?case .
qed

lemma match_here_local:
  assumes "nl_free r" "NL \<notin> set l"
  shows "match_here r (l @ NL # z) = map_option (\<lambda>(rest, g). (rest @ NL # z, g)) (match_here r l)"
proof (cases "outcomes r l []")
  case Nil
  then show ?thesis by (simp add: match_here_def outcomes_local[OF assms])
next
  case (Cons x xs)
  obtain rest g where x: "x = (rest, g)" by (cases x)
  then show ?thesis using Cons by (simp add: match_here_def outcomes_local[OF assms])
qed

lemma match_here_Nil: "nonnull r \<Longrightarrow> match_here r [] = None"
proof -
  assume n: "nonnull r"
  have "outcomes r [] [] = []"
  proof (cases "outcomes r [] []")
    case (Cons x xs)
    obtain rest g where "x = (rest, g)" by (cases x)
    with Cons have "(rest, g) \<in> set (outcomes r [] [])" by simp
    from outcomes_length[OF this] n show ?thesis by simp
  qed simp
  then show ?thesis by (simp add: match_here_def)
qed

lemma match_here_shorter:
  assumes "nonnull r" "match_here r s = Some (rest, g)"
  shows "length rest < length s"
proof -
  from assms(2) obtain g' xs where "outcomes r s [] = (rest, g') # xs"
    by (auto simp: match_here_def split: list.splits)
  then have "(rest, g') \<in> set (outcomes r s [])" by simp
  from outcomes_length[OF this] assms(1) show ?thesis by simp
qed

lemma match_here_suffix:
  assumes "nl_free r" "match_here r s = Some (rest, g)"
  shows "\<exists>m. s = m @ rest \<and> NL \<notin> set m"
proof -
  from assms(2) obtain g' xs where "outcomes r s [] = (rest, g') # xs"
    by (auto simp: match_here_def split: list.splits)
  then have "(rest, g') \<in> set (outcomes r s [])" by simp
  from outcomes_split[OF assms(1) this] show ?thesis .
qed

lemma match_here_rest_nl_free:
  assumes "nl_free r" "match_here r s = Some (rest, g)" "NL \<notin> set s"
  shows "NL \<notin> set rest"
proof -
  from match_here_suffix[OF assms(1,2)] obtain m where "s = m @ rest" by blast
  then have "set rest \<subseteq> set s" by (metis set_append Un_upper2)
  with assms(3) show ?thesis by blast
qed

lemma pieces_Nil: "nonnull r \<Longrightarrow> pieces r [] = []"
  by (simp add: match_here_Nil)

lemma pieces_local:
  "nl_free r \<Longrightarrow> nonnull r \<Longrightarrow> NL \<notin> set l \<Longrightarrow>
     pieces r (l @ NL # z) = pieces r l @ Keep NL # pieces r z"
proof (induction r l rule: pieces.induct)
  case (1 r)
  have "match_here r (NL # z) = None"
    using match_here_local[OF "1.prems"(1), of "[]" z] match_here_Nil[OF "1.prems"(2)] by simp
  then show ?case by (simp add: match_here_Nil[OF "1.prems"(2)])
next
  case (2 r c cs)
  note r = "2.prems"(1,2) and nl = "2.prems"(3)
  have mh: "match_here r ((c # cs) @ NL # z)
            = map_option (\<lambda>(rest, g). (rest @ NL # z, g)) (match_here r (c # cs))"
    by (rule match_here_local[OF r(1) nl])
  show ?case
  proof (cases "match_here r (c # cs)")
    case None
    with mh have "match_here r (c # cs @ NL # z) = None" by simp
    moreover have "pieces r (cs @ NL # z) = pieces r cs @ Keep NL # pieces r z"
      using "2.IH"(1)[OF None r] nl by simp
    ultimately show ?thesis using None by simp
  next
    case (Some x)
    obtain rest g where x: "x = (rest, g)" by (cases x)
    with Some have s: "match_here r (c # cs) = Some (rest, g)" by simp
    from match_here_shorter[OF r(2) s] have len: "length rest \<le> length cs" by simp
    from match_here_rest_nl_free[OF r(1) s nl] have "NL \<notin> set rest" .
    with "2.IH"(2)[OF s _ len r] have ih: "pieces r (rest @ NL # z) = pieces r rest @ Keep NL # pieces r z"
      by simp
    from mh s have "match_here r (c # cs @ NL # z) = Some (rest @ NL # z, g)" by simp
    then show ?thesis using s len ih by simp
  qed
qed

lemma split_lines_no_nl: "NL \<notin> set s \<Longrightarrow> split_lines s = [s]"
  by (induction s) auto

lemma split_lines_nonempty: "split_lines s \<noteq> []"
  by (induction s) (auto split: list.splits)

lemma split_lines_append: "NL \<notin> set l \<Longrightarrow> split_lines (l @ NL # z) = l # split_lines z"
  by (induction l) auto

lemma split_lines_nl_free: "l \<in> set (split_lines s) \<Longrightarrow> NL \<notin> set l"
  by (induction s arbitrary: l) (auto split: if_splits list.splits)

lemma join_lines_Cons: "ls \<noteq> [] \<Longrightarrow> join_lines (l # ls) = l @ Keep NL # join_lines ls"
  by (cases ls) auto

lemma pieces_by_line:
  assumes r: "nl_free r" "nonnull r"
  shows "pieces r s = join_lines (map (pieces r) (split_lines s))"
proof (induction "length s" arbitrary: s rule: less_induct)
  case less
  show ?case
  proof (cases "NL \<in> set s")
    case False
    then show ?thesis by (simp add: split_lines_no_nl)
  next
    case True
    then obtain l z where s: "s = l @ NL # z" and l: "NL \<notin> set l"
      by (meson split_list_first)
    have "length z < length s" using s by simp
    then have ih: "pieces r z = join_lines (map (pieces r) (split_lines z))"
      by (rule less)
    have "pieces r s = pieces r l @ Keep NL # pieces r z"
      unfolding s by (rule pieces_local[OF r l])
    also have "\<dots> = join_lines (pieces r l # map (pieces r) (split_lines z))"
      using ih split_lines_nonempty[of z] by (simp add: join_lines_Cons)
    also have "\<dots> = join_lines (map (pieces r) (split_lines s))"
      unfolding s by (simp add: split_lines_append[OF l])
    finally show ?thesis .
  qed
qed

lemma find_pattern_nl_free: "q \<noteq> NL \<Longrightarrow> nl_free (find_pattern q)"
  by (simp add: find_pattern_def)

lemma find_pattern_nonnull: "nonnull (find_pattern q)"
  by (simp add: find_pattern_def)

lemma targeted_pattern_nonnull: "nonnull targeted_pattern"
  by (simp add: targeted_pattern_def)

lemma find_pattern_first:
  "c \<noteq> q \<Longrightarrow> outcomes (find_pattern q) (c # cs) g = []"
  by (simp add: find_pattern_def)

lemma find_pattern_no_match: "c \<noteq> q \<Longrightarrow> match_here (find_pattern q) (c # cs) = None"
  by (simp add: match_here_def find_pattern_first)

lemma pieces_no_quote: "q \<notin> set s \<Longrightarrow> pieces (find_pattern q) s = map Keep s"
  by (induction s) (auto simp: find_pattern_no_match match_here_Nil[OF find_pattern_nonnull])

lemma match_here_ends_line:
  assumes "q \<noteq> NL" "match_here (find_pattern q) s = Some (rest, g)"
  shows "q \<notin> set (line_of rest)"
proof -
  from assms(2) obtain g' xs where "outcomes (find_pattern q) s [] = (rest, g') # xs"
    by (auto simp: match_here_def split: list.splits)
  with ends_line_find_pattern[OF assms(1), of s "[]"] show ?thesis
    by (simp add: ends_line_def)
qed

lemma line_of_no_nl: "NL \<notin> set s \<Longrightarrow> line_of s = s"
  by (induction s) (auto simp: line_of_def)

lemma hits_Keep: "concat (map (\<lambda>p. case p of Keep c \<Rightarrow> [] | Hit g \<Rightarrow> [g]) (map Keep s)) = []"
  by (induction s) auto

lemma one_hit_per_line:
  assumes q: "q \<noteq> NL"
  shows "NL \<notin> set l \<Longrightarrow> length (re_findall (find_pattern q) l) \<le> 1"
proof (induction l)
  case Nil
  show ?case by (simp add: re_findall_def match_here_Nil[OF find_pattern_nonnull])
next
  case (Cons c cs)
  show ?case
  proof (cases "match_here (find_pattern q) (c # cs)")
    case None
    with Cons show ?thesis by (simp add: re_findall_def)
  next
    case (Some x)
    obtain rest g where x: "x = (rest, g)" by (cases x)
    with Some have s: "match_here (find_pattern q) (c # cs) = Some (rest, g)" by simp
    from match_here_shorter[OF find_pattern_nonnull s] have len: "length rest \<le> length cs" by simp
    from match_here_rest_nl_free[OF find_pattern_nl_free[OF q] s Cons.prems]
    have "NL \<notin> set rest" .
    with match_here_ends_line[OF q s] have "q \<notin> set rest" by (simp add: line_of_no_nl)
    then have "pieces (find_pattern q) rest = map Keep rest" by (rule pieces_no_quote)
    then show ?thesis using s len by (simp add: re_findall_def hits_Keep)
  qed
qed

lemma prefix_take: "prefix x s \<Longrightarrow> take (length s - length (drop (length x) s)) s = x"
  by (auto simp: prefix_def)

lemma group_lits_outcomes:
  "outcomes (Group k (lits x)) s g = (if prefix x s then [(drop (length x) s, (k, x) # g)] else [])"
  using prefix_take[of x s] by (simp add: lits_outcomes del: length_drop)

lemma group_alt_outcomes:
  "outcomes (Group k (Alt r1 r2)) s g = outcomes (Group k r1) s g @ outcomes (Group k r2) s g"
  by simp

lemma after_star_Nil: "after_star a F p [] = F p []"
  by (simp add: after_star_def)

lemma after_star_Cons:
  "after_star a F p (c # cs) =
     (if atom_ok a c then after_star a F (p @ [c]) cs @ F p (c # cs) else F p (c # cs))"
proof (cases "atom_ok a c")
  case False
  then show ?thesis by (simp add: after_star_def)
next
  case True
  have "concat (map (\<lambda>rest. F (p @ take (length (c # cs) - length rest) (c # cs)) rest)
                 (star_outcomes a cs))
        = concat (map (\<lambda>rest. F ((p @ [c]) @ take (length cs - length rest) cs) rest)
                 (star_outcomes a cs))"
  proof (rule arg_cong[where f = concat], rule map_cong[OF refl])
    fix rest assume "rest \<in> set (star_outcomes a cs)"
    then have "length rest \<le> length cs" by (rule star_outcomes_length)
    then have "take (length (c # cs) - length rest) (c # cs) = c # take (length cs - length rest) cs"
      by (simp add: Suc_diff_le)
    then show "F (p @ take (length (c # cs) - length rest) (c # cs)) rest
               = F ((p @ [c]) @ take (length cs - length rest) cs) rest"
      by simp
  qed
  then show ?thesis using True by (simp add: after_star_def)
qed

lemma after_star_append:
  "(\<And>c. atom_ok a c = (c \<noteq> NL)) \<Longrightarrow> NL \<notin> set x \<Longrightarrow>
     \<exists>X. after_star a F p (x @ t) = after_star a F (p @ x) t @ X"
proof (induction x arbitrary: p)
  case Nil
  show ?case by simp
next
  case (Cons c x)
  from Cons.prems have ok: "atom_ok a c" by auto
  from Cons.IH[of "p @ [c]"] Cons.prems obtain X where
    "after_star a F (p @ [c]) (x @ t) = after_star a F ((p @ [c]) @ x) t @ X" by auto
  then have "after_star a F p ((c # x) @ t) = after_star a F (p @ c # x) t @ (X @ F p (c # x @ t))"
    using ok by (simp add: after_star_Cons)
  then show ?case by blast
qed

lemma group1_outcomes:
  "outcomes (Group 1 (Seq (Atom (Lit q)) (Star a))) (q # t) g =
     map (\<lambda>rest. (rest, (1, q # take (length t - length rest) t) # g)) (star_outcomes a t)"
proof -
  have "outcomes (Group 1 (Seq (Atom (Lit q)) (Star a))) (q # t) g =
     map (\<lambda>rest. (rest, (1, take (length (q # t) - length rest) (q # t)) # g)) (star_outcomes a t)"
    by (simp add: comp_def)
  also have "\<dots> = map (\<lambda>rest. (rest, (1, q # take (length t - length rest) t) # g)) (star_outcomes a t)"
  proof (rule map_cong[OF refl])
    fix rest assume "rest \<in> set (star_outcomes a t)"
    then have "length rest \<le> length t" by (rule star_outcomes_length)
    then show "(rest, (1, take (length (q # t) - length rest) (q # t)) # g)
               = (rest, (1, q # take (length t - length rest) t) # g)"
      by (simp add: Suc_diff_le)
  qed
  finally show ?thesis .
qed

lemma seq_group1_outcomes:
  "outcomes (Seq (Group 1 (Seq (Atom (Lit q)) (Star a))) R) (q # t) g =
     after_star a (\<lambda>p rest. outcomes R rest ((1, q # p) # g)) [] t"
  unfolding outcomes.simps(4)[of "Group 1 (Seq (Atom (Lit q)) (Star a))"] group1_outcomes
  by (simp add: after_star_def comp_def)

lemma rest_outcomes:
  "outcomes (Seq (Group 2 (Alt (lits n1) (lits n2))) R) s g =
     (if prefix n1 s then outcomes R (drop (length n1) s) ((2, n1) # g) else [])
     @ (if prefix n2 s then outcomes R (drop (length n2) s) ((2, n2) # g) else [])"
  unfolding outcomes.simps(4)[of "Group 2 (Alt (lits n1) (lits n2))"]
    group_alt_outcomes group_lits_outcomes
  by (simp del: outcomes.simps)

lemma group3_tail_empty:
  assumes "\<And>c. atom_ok a c = (c \<noteq> NL)" "q \<noteq> NL" "q \<notin> set (line_of s)"
  shows "outcomes (Group 3 (Seq (Star a) (Atom (Lit q)))) s g = []"
proof -
  have "outcomes (Seq (Star a) (Atom (Lit q))) s g = []"
    using tail_empty[OF assms(1,2)] assms(3) by blast
  then show ?thesis unfolding outcomes.simps(6) by (simp del: outcomes.simps)
qed

lemma group3_tail_head:
  assumes "\<And>c. atom_ok a c = (c \<noteq> NL)" "q \<noteq> NL" "NL \<notin> set b" "q \<notin> set (line_of z)"
  shows "\<exists>ys. outcomes (Group 3 (Seq (Star a) (Atom (Lit q)))) (b @ q # z) g
              = (z, (3, b @ [q]) # g) # ys"
proof -
  obtain ys where ys: "outcomes (Seq (Star a) (Atom (Lit q))) (b @ q # z) g = (z, g) # ys"
    using tail_head[OF assms] by blast
  have "take (length ((b @ [q]) @ z) - length z) ((b @ [q]) @ z) = b @ [q]"
    by (rule take_consumed)
  then have "take (length (b @ q # z) - length z) (b @ q # z) = b @ [q]" by simp
  then show ?thesis unfolding outcomes.simps(6) ys by (simp del: outcomes.simps)
qed

lemma line_of_drop:
  assumes "prefix n s" "NL \<notin> set n" "q \<notin> set (line_of s)"
  shows "q \<notin> set (line_of (drop (length n) s))"
proof -
  from assms(1) obtain t where s: "s = n @ t" by (auto simp: prefix_def)
  with assms(2,3) show ?thesis by (simp add: line_of_append)
qed

lemma rest_no_quote:
  assumes a: "\<And>c. atom_ok a c = (c \<noteq> NL)" and q: "q \<noteq> NL"
    and n: "NL \<notin> set n1" "NL \<notin> set n2" and s: "q \<notin> set (line_of s)"
  shows "outcomes (Seq (Group 2 (Alt (lits n1) (lits n2))) (Group 3 (Seq (Star a) (Atom (Lit q))))) s g = []"
  unfolding rest_outcomes
  using group3_tail_empty[OF a q line_of_drop[OF _ n(1) s]]
        group3_tail_empty[OF a q line_of_drop[OF _ n(2) s]]
  by (simp del: outcomes.simps)

lemma prefix_before: "prefix n (x @ q # z) \<Longrightarrow> q \<notin> set n \<Longrightarrow> prefix n x"
proof (induction x arbitrary: n)
  case Nil
  then show ?case by (cases n) auto
next
  case (Cons c x)
  then show ?case by (cases n) auto
qed

lemma prefix_occurs: "prefix n l \<Longrightarrow> occurs n l"
  by (cases l) auto

lemma rest_before_quote:
  assumes "\<not> occurs n1 l" "\<not> occurs n2 l" "q \<notin> set n1" "q \<notin> set n2"
  shows "outcomes (Seq (Group 2 (Alt (lits n1) (lits n2))) R) (l @ q # z) g = []"
proof -
  have "\<not> prefix n1 (l @ q # z)"
  proof
    assume "prefix n1 (l @ q # z)"
    from prefix_before[OF this assms(3)] have "prefix n1 l" .
    from prefix_occurs[OF this] assms(1) show False by simp
  qed
  moreover have "\<not> prefix n2 (l @ q # z)"
  proof
    assume "prefix n2 (l @ q # z)"
    from prefix_before[OF this assms(4)] have "prefix n2 l" .
    from prefix_occurs[OF this] assms(2) show False by simp
  qed
  ultimately show ?thesis unfolding rest_outcomes by (simp del: outcomes.simps)
qed

lemma rest_head:
  assumes a: "\<And>c. atom_ok a c = (c \<noteq> NL)" and q: "q \<noteq> NL"
    and n: "n = n1 \<or> (n = n2 \<and> \<not> prefix n1 (n2 @ b @ q # z))"
    and b: "NL \<notin> set b" and z: "q \<notin> set (line_of z)"
  shows "\<exists>ys. outcomes (Seq (Group 2 (Alt (lits n1) (lits n2))) (Group 3 (Seq (Star a) (Atom (Lit q)))))
                 (n @ b @ q # z) g = (z, (3, b @ [q]) # (2, n) # g) # ys"
proof -
  obtain ys where ys: "outcomes (Group 3 (Seq (Star a) (Atom (Lit q)))) (b @ q # z) ((2, n) # g)
                       = (z, (3, b @ [q]) # (2, n) # g) # ys"
    using group3_tail_head[OF a q b z] by blast
  from n show ?thesis
  proof
    assume "n = n1"
    then show ?thesis unfolding rest_outcomes using ys by (simp del: outcomes.simps)
  next
    assume "n = n2 \<and> \<not> prefix n1 (n2 @ b @ q # z)"
    then show ?thesis unfolding rest_outcomes using ys by (simp del: outcomes.simps)
  qed
qed

lemma after_star_no_quote:
  assumes a: "\<And>c. atom_ok a c = (c \<noteq> NL)" and q: "q \<noteq> NL"
    and n: "NL \<notin> set n1" "NL \<notin> set n2"
  shows "q \<notin> set (line_of z) \<Longrightarrow>
    after_star a (\<lambda>p rest. outcomes (Seq (Group 2 (Alt (lits n1) (lits n2)))
                                     (Group 3 (Seq (Star a) (Atom (Lit q))))) rest (G p)) p z = []"
proof (induction z arbitrary: p)
  case Nil
  show ?case unfolding after_star_Nil using rest_no_quote[OF a q n] Nil by blast
next
  case (Cons c z)
  have here: "outcomes (Seq (Group 2 (Alt (lits n1) (lits n2)))
                 (Group 3 (Seq (Star a) (Atom (Lit q))))) (c # z) (G p) = []"
    using rest_no_quote[OF a q n] Cons.prems by blast
  show ?case
  proof (cases "c = NL")
    case True
    then show ?thesis unfolding after_star_Cons using a here by (simp del: outcomes.simps)
  next
    case False
    with Cons.prems have "q \<notin> set (line_of z)" by (simp add: line_of_simps)
    from Cons.IH[OF this] show ?thesis unfolding after_star_Cons using here
      by (simp del: outcomes.simps)
  qed
qed

lemma after_star_no_later:
  assumes a: "\<And>c. atom_ok a c = (c \<noteq> NL)" and q: "q \<noteq> NL"
    and n: "NL \<notin> set n1" "NL \<notin> set n2" and qn: "q \<notin> set n1" "q \<notin> set n2"
    and z: "q \<notin> set (line_of z)"
  shows "\<not> occurs n1 l \<Longrightarrow> \<not> occurs n2 l \<Longrightarrow>
    after_star a (\<lambda>p rest. outcomes (Seq (Group 2 (Alt (lits n1) (lits n2)))
                                     (Group 3 (Seq (Star a) (Atom (Lit q))))) rest (G p)) p (l @ q # z) = []"
proof (induction l arbitrary: p)
  case Nil
  have "outcomes (Seq (Group 2 (Alt (lits n1) (lits n2)))
           (Group 3 (Seq (Star a) (Atom (Lit q))))) ([] @ q # z) (G p) = []"
    by (rule rest_before_quote[OF Nil.prems qn])
  then show ?case unfolding append_Nil after_star_Cons
    using after_star_no_quote[OF a q n z, of G] by (simp del: outcomes.simps)
next
  case (Cons c l)
  have here: "outcomes (Seq (Group 2 (Alt (lits n1) (lits n2)))
           (Group 3 (Seq (Star a) (Atom (Lit q))))) ((c # l) @ q # z) (G p) = []"
    by (rule rest_before_quote[OF Cons.prems qn])
  from Cons.prems have "\<not> occurs n1 l" "\<not> occurs n2 l" by auto
  from Cons.IH[OF this] show ?case unfolding append_Cons after_star_Cons using here
    by (simp del: outcomes.simps)
qed

lemma find_match_generic:
  assumes a: "\<And>c. atom_ok a c = (c \<noteq> NL)" and q: "q \<noteq> NL"
    and nn: "NL \<notin> set n1" "NL \<notin> set n2" and qn: "q \<notin> set n1" "q \<notin> set n2"
    and n: "n = n1 \<or> (n = n2 \<and> \<not> prefix n1 (n2 @ b @ q # z))"
    and ne: "n = n0 # n'"
    and x: "NL \<notin> set x" and b: "NL \<notin> set b"
    and later: "\<not> occurs n1 (n' @ b)" "\<not> occurs n2 (n' @ b)"
    and z: "q \<notin> set (line_of z)"
  shows "\<exists>ys. outcomes (Seq (Group 1 (Seq (Atom (Lit q)) (Star a)))
                  (Seq (Group 2 (Alt (lits n1) (lits n2))) (Group 3 (Seq (Star a) (Atom (Lit q))))))
                (q # x @ n @ b @ q # z) g
              = (z, (3, b @ [q]) # (2, n) # (1, q # x) # g) # ys"
proof -
  let ?R = "Seq (Group 2 (Alt (lits n1) (lits n2))) (Group 3 (Seq (Star a) (Atom (Lit q))))"
  let ?F = "\<lambda>p rest. outcomes ?R rest ((1, q # p) # g)"
  have 1: "outcomes (Seq (Group 1 (Seq (Atom (Lit q)) (Star a))) ?R) (q # x @ n @ b @ q # z) g
           = after_star a ?F [] (x @ n @ b @ q # z)"
    by (rule seq_group1_outcomes)
  obtain X where 2: "after_star a ?F [] (x @ n @ b @ q # z) = after_star a ?F ([] @ x) (n @ b @ q # z) @ X"
    using after_star_append[OF a x, of ?F "[]" "n @ b @ q # z"] by blast
  have "n0 \<in> set n" using ne by simp
  with n nn have "n0 \<noteq> NL" by auto
  then have ok: "atom_ok a n0" using a by simp
  have 3: "after_star a ?F x (n @ b @ q # z)
           = after_star a ?F (x @ [n0]) ((n' @ b) @ q # z) @ ?F x (n @ b @ q # z)"
    unfolding ne append_Cons after_star_Cons using ok by (simp del: outcomes.simps)
  have 4: "after_star a ?F (x @ [n0]) ((n' @ b) @ q # z) = []"
    by (rule after_star_no_later[OF a q nn qn z later, where G = "\<lambda>p. (1, q # p) # g"])
  obtain ys where 5: "?F x (n @ b @ q # z) = (z, (3, b @ [q]) # (2, n) # (1, q # x) # g) # ys"
    using rest_head[OF a q n b z] by blast
  have "outcomes (Seq (Group 1 (Seq (Atom (Lit q)) (Star a))) ?R) (q # x @ n @ b @ q # z) g
        = (z, (3, b @ [q]) # (2, n) # (1, q # x) # g) # (ys @ X)"
    unfolding 1 2 append_Nil 3 4 5 by (simp del: outcomes.simps)
  then show ?thesis by blast
qed

lemma find_match:
  assumes q: "q = DQ \<or> q = SQ"
    and n: "n = ''a-zA-Z'' \<or> n = ''A-Za-z''"
    and x: "NL \<notin> set x" and b: "NL \<notin> set b"
    and later: "\<not> occurs ''a-zA-Z'' (tl (n @ b))" "\<not> occurs ''A-Za-z'' (tl (n @ b))"
    and z: "q \<notin> set (line_of z)"
  shows "match_here (find_pattern q) (q # x @ n @ b @ q # z)
         = Some (z, [(0, q # x @ n @ b @ [q]), (3, b @ [q]), (2, n), (1, q # x)])"
proof -
  obtain n0 n' where ne: "n = n0 # n'" using n by auto
  have n': "n = ''a-zA-Z'' \<or> (n = ''A-Za-z'' \<and> \<not> prefix ''a-zA-Z'' (''A-Za-z'' @ b @ q # z))"
    using n by auto
  have later': "\<not> occurs ''a-zA-Z'' (n' @ b)" "\<not> occurs ''A-Za-z'' (n' @ b)"
    using later ne by simp_all
  have qq: "q \<noteq> NL" "q \<notin> set ''a-zA-Z''" "q \<notin> set ''A-Za-z''" using q by auto
  obtain ys where "outcomes (find_pattern q) (q # x @ n @ b @ q # z) []
                   = (z, (3, b @ [q]) # (2, n) # (1, q # x) # []) # ys"
    unfolding find_pattern_def
    using find_match_generic[where a = "NotLit NL" and ?n1.0 = "''a-zA-Z''" and ?n2.0 = "''A-Za-z''",
            OF _ qq(1) _ _ qq(2,3) n' ne x b later' z, of "[]"]
    by auto
  moreover have "take (length ((q # x @ n @ b @ [q]) @ z) - length z) ((q # x @ n @ b @ [q]) @ z)
                 = q # x @ n @ b @ [q]"
    by (rule take_consumed)
  ultimately show ?thesis by (simp add: match_here_def del: outcomes.simps)
qed

section \<open>Properties of the replacement and of the rules\<close>

lemma parse_lit:
  "c \<noteq> BS \<Longrightarrow> s \<noteq> [] \<Longrightarrow>
     parse_template n (c # s) =
       (case parse_template n s of Inl e \<Rightarrow> Inl e | Inr items \<Rightarrow> Inr (TLit c # items))"
  by (cases s) simp_all

lemma template_token_quote:
  "q = DQ \<or> q = SQ \<Longrightarrow> template_token n q s = Inr ([TLit BS, TLit q], 0)"
  by (elim disjE)
     (simp_all add: template_token_def ESCAPES_def is_digit_def is_ascii_letter_def)

lemma parse_quote:
  "q = DQ \<or> q = SQ \<Longrightarrow>
     parse_template n (BS # q # s) =
       (case parse_template n s of Inl e \<Rightarrow> Inl e | Inr items \<Rightarrow> Inr (TLit BS # TLit q # items))"
  by (simp add: template_token_quote split: sum.splits)

lemma template_token_3: "template_token 3 (CHR ''3'') [] = Inr ([TGroup 3], 0)"
  by (simp add: template_token_def is_digit_def addgroup_def digit_val_def)

lemma parse_group3: "parse_template 3 [BS, CHR ''3''] = Inr [TGroup 3]"
  by (simp add: template_token_3)

lemma template_token_1:
  "\<not> is_digit e \<Longrightarrow> template_token 3 (CHR ''1'') (e # r) = Inr ([TGroup 1], 0)"
  by (simp add: template_token_def addgroup_def digit_val_def) (simp add: is_digit_def)

lemma template_token_2:
  "\<not> is_digit e \<Longrightarrow> template_token 3 (CHR ''2'') (e # r) = Inr ([TGroup 2], 0)"
  by (simp add: template_token_def addgroup_def digit_val_def) (simp add: is_digit_def)

lemma parse_group1:
  "\<not> is_digit e \<Longrightarrow> parse_template 3 (BS # CHR ''1'' # e # r) =
     (case parse_template 3 (e # r) of Inl x \<Rightarrow> Inl x | Inr items \<Rightarrow> Inr (TGroup 1 # items))"
  by (simp add: template_token_1 split: sum.splits)

lemma parse_group2:
  "\<not> is_digit e \<Longrightarrow> parse_template 3 (BS # CHR ''2'' # e # r) =
     (case parse_template 3 (e # r) of Inl x \<Rightarrow> Inl x | Inr items \<Rightarrow> Inr (TGroup 2 # items))"
  by (simp add: template_token_2 split: sum.splits)

lemma parse_qesc:
  assumes q: "q = DQ \<or> q = SQ"
  shows "BS \<notin> set w \<Longrightarrow>
     parse_template 3 (qesc q w @ [BS, CHR ''3'']) = Inr (map TLit (qesc q w) @ [TGroup 3])"
proof (induction w)
  case Nil
  show ?case by (simp add: qesc_simps parse_group3 del: parse_template.simps)
next
  case (Cons c w)
  then have ih: "parse_template 3 (qesc q w @ [BS, CHR ''3'']) = Inr (map TLit (qesc q w) @ [TGroup 3])"
    by simp
  show ?case
  proof (cases "c = q")
    case True
    then show ?thesis using ih by (simp add: qesc_simps parse_quote[OF q] del: parse_template.simps)
  next
    case False
    moreover have "c \<noteq> BS" using Cons.prems by auto
    ultimately show ?thesis using ih by (simp add: qesc_simps parse_lit del: parse_template.simps)
  qed
qed

lemma hd_qesc_not_digit:
  assumes "q = DQ \<or> q = SQ" "w = [] \<or> \<not> is_digit (hd w)"
  shows "\<exists>e r. qesc q w @ [BS, CHR ''3''] = e # r \<and> \<not> is_digit e"
proof (cases w)
  case Nil
  then show ?thesis by (simp add: qesc_simps is_digit_def)
next
  case (Cons c w')
  show ?thesis
  proof (cases "c = q")
    case True
    with Cons show ?thesis by (simp add: qesc_simps is_digit_def)
  next
    case False
    with Cons assms(2) show ?thesis by (simp add: qesc_simps)
  qed
qed

lemma parse_find_replace:
  assumes qs: "(q = DQ \<and> \<not> sq) \<or> (q = SQ \<and> sq)"
    and w: "BS \<notin> set w" "w = [] \<or> \<not> is_digit (hd w)"
  shows "parse_template 3 (find_replace w sq)
         = Inr (TGroup 1 # TGroup 2 # map TLit (escape_str w sq) @ [TGroup 3])"
proof -
  have q: "q = DQ \<or> q = SQ" using qs by auto
  have esc: "escape_str w sq = qesc q w"
    using qs by (auto simp: escape_str_alt esc2_id[OF w(1)])
  obtain e r where er: "qesc q w @ [BS, CHR ''3''] = e # r" "\<not> is_digit e"
    using hd_qesc_not_digit[OF q w(2)] by blast
  have body: "parse_template 3 (e # r) = Inr (map TLit (qesc q w) @ [TGroup 3])"
    using parse_qesc[OF q w(1)] er(1) by simp
  have nb: "\<not> is_digit BS" by (simp add: is_digit_def)
  have "parse_template 3 (BS # CHR ''2'' # e # r) = Inr (TGroup 2 # map TLit (qesc q w) @ [TGroup 3])"
    unfolding parse_group2[OF er(2)] body by simp
  then have "parse_template 3 (BS # CHR ''1'' # BS # CHR ''2'' # e # r)
             = Inr (TGroup 1 # TGroup 2 # map TLit (qesc q w) @ [TGroup 3])"
    unfolding parse_group1[OF nb] by simp
  moreover have "find_replace w sq = BS # CHR ''1'' # BS # CHR ''2'' # e # r"
    using er(1) by (simp add: find_replace_def esc)
  ultimately show ?thesis by (simp add: esc)
qed

lemma expand_lits: "concat (map (\<lambda>i. case i of TLit c \<Rightarrow> [c] | TGroup k \<Rightarrow> group g k) (map TLit e)) = e"
  by (induction e) auto

lemma expand_find:
  "expand_template (TGroup 1 # TGroup 2 # map TLit e @ [TGroup 3]) g
   = group g 1 @ group g 2 @ e @ group g 3"
  using expand_lits[of g e] by (simp add: expand_template_def comp_def)

lemma render_Keep: "concat (map (render items) (map Keep s)) = s"
  by (induction s) (auto simp: render_def)

lemma pieces_pre:
  "q \<notin> set pre \<Longrightarrow> pieces (find_pattern q) (pre @ s) = map Keep pre @ pieces (find_pattern q) s"
  by (induction pre) (auto simp: find_pattern_no_match)

lemma groups_of_find_pattern: "groups_of (find_pattern q) = 3"
  by (simp add: find_pattern_def)

lemma no_quote_unchanged:
  assumes qs: "(q = DQ \<and> \<not> sq) \<or> (q = SQ \<and> sq)"
    and w: "BS \<notin> set w" "w = [] \<or> \<not> is_digit (hd w)"
    and c: "q \<notin> set content"
  shows "re_sub (find_pattern q) (find_replace w sq) content = Inr content"
  unfolding re_sub_def groups_of_find_pattern parse_find_replace[OF qs w] pieces_no_quote[OF c]
  using render_Keep[of "TGroup 1 # TGroup 2 # map TLit (escape_str w sq) @ [TGroup 3]" content]
  by simp

lemma read_file_decode_error:
  "read_text P PlatformDefault path (files w) = Inl UnicodeDecodeError \<Longrightarrow>
     read_file P path w = (Inl UnicodeDecodeError, emit (ReadAttempt PlatformDefault path) w)"
  by (simp add: read_file_def)

lemma write_file_encode_error:
  "write_text P PlatformDefault path content (files w) = (Some UnicodeEncodeError, fs1) \<Longrightarrow>
     write_text P UTF8 path content fs1 = (r, fs2) \<Longrightarrow>
     write_file P path content w =
       (r, (emit (WriteAttempt UTF8 path content)
              (emit (WriteAttempt PlatformDefault path content) w))\<lparr>files := fs2\<rparr>)"
  by (simp add: write_file_def)

section \<open>The script on concrete inputs, and the files it leaves alone\<close>

text \<open>
  Claim C2.  The targeted rewrite escapes the whitelist with \<open>escape_str _ True\<close>, the
  single-quote flag, although it puts the result between double quotes.  For the whitelist
  \<open>Q\<close> the span \<open>string allowSpecialChars = "abc")\<close> becomes \<open>string allowSpecialChars = "Q")\<close>;
  for the whitelist that is one double quote, the default value is that double quote,
  unescaped, where the escape for the double-quote context is backslash, double quote.
\<close>
theorem targeted_rewrite_flag:
  "targeted_rewrite ''Q'' (''string allowSpecialChars = '' @ [DQ] @ ''abc'' @ [DQ] @ '')'')
     = Inr (''string allowSpecialChars = '' @ [DQ] @ ''Q'' @ [DQ] @ '')'') \<and>
   targeted_rewrite [DQ] (''string allowSpecialChars = '' @ [DQ] @ ''abc'' @ [DQ] @ '')'')
     = Inr (''string allowSpecialChars = '' @ [DQ] @ [DQ] @ [DQ] @ '')'') \<and>
   escape_str [DQ] True = [DQ] \<and>
   escape_str [DQ] False = [BS, DQ]"
  by code_simp

text \<open>
  Claim C4.  The fallback to UTF-8 is behind \<open>except UnicodeEncodeError\<close>, for reads as for
  writes.  A file that the default encoding cannot decode raises \<open>UnicodeDecodeError\<close>: the
  run ends there, although the same file can be read under UTF-8.
\<close>
theorem read_decode_error_not_retried:
  "read_text ascii_platform UTF8 ''t/A.cs'' [(''t/A.cs'', [CHR 0xE9])] = Inr [CHR 0xE9] \<and>
   main ascii_platform [(''t'', [''A.cs''])] [''Q''] [(''t/A.cs'', [CHR 0xE9])]
   = (Some UnicodeDecodeError,
      \<lparr>files = [(''t/A.cs'', [CHR 0xE9])],
       trace = [Prompt PROMPT, ReadAttempt PlatformDefault ''t/A.cs'']\<rparr>)"
  by code_simp

text \<open>
  Claim C6.  With the whitelist \<open>5\<close> the replacement of the first rule is
  \<^verbatim>\<open>\1\25\3\<close>, a reference to group 25: \<open>re.sub\<close> raises, also on a content without any
  quote, and the file is not written.
\<close>
theorem digit_whitelist_raises:
  "main ascii_platform [(''t'', [''A.cs''])] [''5''] [(''t/A.cs'', ''x'')]
   = (Some ReError,
      \<lparr>files = [(''t/A.cs'', ''x'')],
       trace = [Prompt PROMPT, ReadAttempt PlatformDefault ''t/A.cs'']\<rparr>)"
  by code_simp

text \<open>
  Claim C8.  The prompt the script prints is \<open>Enter the chararacters you want to allow: \<close>
  (with the misspelt word, and a blank behind the colon); the whitelist is the next line of
  standard input, taken as it is.
\<close>
theorem prompt_text:
  "PROMPT = ''Enter the chararacters you want to allow: '' \<and>
   PROMPT \<noteq> ''Enter the characters you want to allow:'' \<and>
   main ascii_platform [] [''abc''] []
   = (None, \<lparr>files = [], trace = [Prompt ''Enter the chararacters you want to allow: '']\<rparr>)"
  by code_simp


lemma process_file_other:
  "file \<noteq> ''Extensions.cs'' \<Longrightarrow> splitext_ext file \<noteq> ''.cs'' \<Longrightarrow>
     process_file P whitelist root file w = (None, w)"
  by (simp add: process_file_def)

lemma process_files_other:
  "(\<forall>file \<in> set fs. file \<noteq> ''Extensions.cs'' \<and> splitext_ext file \<noteq> ''.cs'') \<Longrightarrow>
     process_files P whitelist root fs w = (None, w)"
  by (induction fs) (simp_all add: process_file_other)

lemma walk_loop_other:
  "(\<forall>(root, fs) \<in> set tree. \<forall>file \<in> set fs.
       file \<noteq> ''Extensions.cs'' \<and> splitext_ext file \<noteq> ''.cs'') \<Longrightarrow>
     walk_loop P whitelist tree w = (None, w)"
proof (induction tree)
  case Nil
  show ?case by simp
next
  case (Cons d tree)
  obtain root fs where d: "d = (root, fs)" by (cases d)
  with Cons.prems have "process_files P whitelist root fs w = (None, w)"
    by (intro process_files_other) auto
  moreover from Cons have "walk_loop P whitelist tree w = (None, w)" by simp
  ultimately show ?case using d by simp
qed

text \<open>
  Claim C7.  A file that is not named \<open>Extensions.cs\<close> and whose extension is not \<open>.cs\<close> is
  passed over: nothing is read, written or printed for it.  When the tree has no other
  files, the run prints nothing after the prompt, reads and writes no file and leaves the
  file system as it was.
\<close>
theorem other_files_untouched:
  "(file \<noteq> ''Extensions.cs'' \<and> splitext_ext file \<noteq> ''.cs'' \<longrightarrow>
      process_file P whitelist root file w = (None, w)) \<and>
   ((\<forall>(root, fs) \<in> set tree. \<forall>file \<in> set fs.
        file \<noteq> ''Extensions.cs'' \<and> splitext_ext file \<noteq> ''.cs'') \<longrightarrow>
      main P tree stdin fs0 =
        (if stdin = [] then Some EOFError else None, \<lparr>files = fs0, trace = [Prompt PROMPT]\<rparr>))"
proof (intro conjI impI)
  assume "file \<noteq> ''Extensions.cs'' \<and> splitext_ext file \<noteq> ''.cs''"
  then show "process_file P whitelist root file w = (None, w)"
    by (simp add: process_file_other)
next
  assume a: "\<forall>(root, fs) \<in> set tree. \<forall>file \<in> set fs.
        file \<noteq> ''Extensions.cs'' \<and> splitext_ext file \<noteq> ''.cs''"
  show "main P tree stdin fs0 =
        (if stdin = [] then Some EOFError else None, \<lparr>files = fs0, trace = [Prompt PROMPT]\<rparr>)"
  proof (cases stdin)
    case Nil
    then show ?thesis by (simp add: main_def)
  next
    case (Cons l ls)
    then show ?thesis using walk_loop_other[OF a] by (simp add: main_def)
  qed
qed

text \<open>A tree with \<open>notes.txt\<close>, a file named \<open>.cs\<close> (which has no extension) and \<open>B.CS\<close>.\<close>
theorem other_files_untouched_witness:
  "''notes.txt'' \<noteq> ''Extensions.cs'' \<and> splitext_ext ''notes.txt'' \<noteq> ''.cs'' \<and>
   splitext_ext ''.cs'' \<noteq> ''.cs'' \<and> splitext_ext ''B.CS'' \<noteq> ''.cs'' \<and>
   process_file ascii_platform ''XYZ'' ''t'' ''notes.txt'' \<lparr>files = [(''t/notes.txt'', ''a'')], trace = []\<rparr>
     = (None, \<lparr>files = [(''t/notes.txt'', ''a'')], trace = []\<rparr>) \<and>
   main ascii_platform [(''t'', [''notes.txt'', ''.cs'']), (''t/u'', [''B.CS''])] [''XYZ'']
     [(''t/notes.txt'', ''a'')]
     = (None, \<lparr>files = [(''t/notes.txt'', ''a'')], trace = [Prompt PROMPT]\<rparr>)"
proof -
  have h: "''notes.txt'' \<noteq> ''Extensions.cs'' \<and> splitext_ext ''notes.txt'' \<noteq> ''.cs'' \<and>
   splitext_ext ''.cs'' \<noteq> ''.cs'' \<and> splitext_ext ''B.CS'' \<noteq> ''.cs''"
    by code_simp
  then have t: "\<forall>(root, fs) \<in> set [(''t'', [''notes.txt'', ''.cs'']), (''t/u'', [''B.CS''])].
          \<forall>file \<in> set fs. file \<noteq> ''Extensions.cs'' \<and> splitext_ext file \<noteq> ''.cs''"
    by simp
  from h t other_files_untouched[of "''notes.txt''" ascii_platform "''XYZ''" "''t''"
      "\<lparr>files = [(''t/notes.txt'', ''a'')], trace = []\<rparr>"
      "[(''t'', [''notes.txt'', ''.cs'']), (''t/u'', [''B.CS''])]" "[''XYZ'']" "[(''t/notes.txt'', ''a'')]"]
  show ?thesis by simp
qed

lemma findall_line_bound:
  assumes "q = DQ \<or> q = SQ"
  shows "\<forall>l \<in> set (split_lines text). length (re_findall (find_pattern q) l) \<le> 1"
proof
  fix l assume "l \<in> set (split_lines text)"
  then have "NL \<notin> set l" by (rule split_lines_nl_free)
  moreover have "q \<noteq> NL" using assms by auto
  ultimately show "length (re_findall (find_pattern q) l) \<le> 1"
    using one_hit_per_line by blast
qed

section \<open>The replacement of the targeted rewrite\<close>

lemma parse_lit_any:
  "c \<noteq> BS \<Longrightarrow>
     parse_template n (c # s) =
       (case parse_template n s of Inl e \<Rightarrow> Inl e | Inr items \<Rightarrow> Inr (TLit c # items))"
  by (cases s) simp_all

lemma parse_literal_prefix:
  "BS \<notin> set p \<Longrightarrow>
     parse_template n (p @ s) =
       (case parse_template n s of Inl e \<Rightarrow> Inl e | Inr items \<Rightarrow> Inr (map TLit p @ items))"
proof (induction p)
  case Nil
  show ?case by (simp split: sum.splits)
next
  case (Cons c p)
  then have c: "c \<noteq> BS" and ih: "parse_template n (p @ s) =
       (case parse_template n s of Inl e \<Rightarrow> Inl e | Inr items \<Rightarrow> Inr (map TLit p @ items))"
    by auto
  show ?case unfolding append_Cons parse_lit_any[OF c] ih by (simp split: sum.splits)
qed

lemma template_token_backslash: "template_token n BS s = Inr ([TLit BS], 0)"
  by (simp add: template_token_def ESCAPES_def is_digit_def)

lemma template_token_n: "template_token n (CHR ''n'') s = Inr ([TLit NL], 0)"
  by (simp add: template_token_def ESCAPES_def is_digit_def)

lemma parse_backslash:
  "parse_template n (BS # BS # s) =
     (case parse_template n s of Inl e \<Rightarrow> Inl e | Inr items \<Rightarrow> Inr (TLit BS # items))"
  by (simp add: template_token_backslash split: sum.splits)

lemma parse_backslash_n:
  "parse_template n (BS # CHR ''n'' # s) =
     (case parse_template n s of Inl e \<Rightarrow> Inl e | Inr items \<Rightarrow> Inr (TLit NL # items))"
  by (simp add: template_token_n split: sum.splits)

lemma qesc_append: "qesc q (a @ b) = qesc q a @ qesc q b"
  by (simp add: qesc_def)

lemma parse_escaped:
  assumes q: "q = DQ \<or> q = SQ"
  shows "parse_template n (qesc q (esc2 w) @ tail) =
     (case parse_template n tail of
        Inl e \<Rightarrow> Inl e
      | Inr items \<Rightarrow> Inr (map TLit (emitted q w) @ items))"
proof (induction w rule: esc2.induct)
  case 1
  show ?case by (simp add: qesc_simps split: sum.splits)
next
  case (2 c cs)
  have qb: "q \<noteq> BS" "q \<noteq> CHR ''n''" using q by auto
  show ?case
  proof (cases "c = BS")
    case False
    then have ih: "parse_template n (qesc q (esc2 cs) @ tail) =
       (case parse_template n tail of
          Inl e \<Rightarrow> Inl e | Inr items \<Rightarrow> Inr (map TLit (emitted q cs) @ items))"
      using 2(3) by simp
    show ?thesis
    proof (cases "c = q")
      case True
      have l: "qesc q (esc2 (c # cs)) @ tail = BS # q # (qesc q (esc2 cs) @ tail)"
        using True qb by (simp add: qesc_simps)
      have e: "emitted q (c # cs) = BS # q # emitted q cs"
        using True qb by simp
      show ?thesis unfolding l e parse_quote[OF q] ih by (simp split: sum.splits)
    next
      case nq: False
      have l: "qesc q (esc2 (c # cs)) @ tail = c # (qesc q (esc2 cs) @ tail)"
        using False nq by (simp add: qesc_simps)
      have e: "emitted q (c # cs) = c # emitted q cs"
        using False nq by simp
      show ?thesis unfolding l e parse_lit_any[OF False] ih by (simp split: sum.splits)
    qed
  next
    case True
    show ?thesis
    proof (cases cs)
      case Nil
      have l: "qesc q (esc2 (c # cs)) @ tail = BS # BS # tail"
        using True Nil qb by (simp add: qesc_simps)
      have e: "emitted q (c # cs) = [BS]"
        using True Nil by simp
      show ?thesis unfolding l e parse_backslash by (simp split: sum.splits)
    next
      case (Cons d ds)
      show ?thesis
      proof (cases "d = CHR ''n''")
        case dn: True
        have ih: "parse_template n (qesc q (esc2 ds) @ tail) =
           (case parse_template n tail of
              Inl e \<Rightarrow> Inl e | Inr items \<Rightarrow> Inr (map TLit (emitted q ds) @ items))"
          using 2(1) True Cons dn by simp
        have "esc2 (c # cs) = BS # BS # BS # CHR ''n'' # esc2 ds"
          using True Cons dn by simp
        then have l: "qesc q (esc2 (c # cs)) @ tail
              = BS # BS # BS # CHR ''n'' # (qesc q (esc2 ds) @ tail)"
          using qb by (simp add: qesc_simps)
        have e: "emitted q (c # cs) = BS # NL # emitted q ds"
          using True Cons dn by simp
        show ?thesis unfolding l e parse_backslash parse_backslash_n ih
          by (simp split: sum.splits)
      next
        case dn: False
        have ih: "parse_template n (qesc q (esc2 cs) @ tail) =
           (case parse_template n tail of
              Inl e \<Rightarrow> Inl e | Inr items \<Rightarrow> Inr (map TLit (emitted q cs) @ items))"
          using 2(2) True Cons dn by simp
        have "esc2 (c # cs) = BS # BS # esc2 cs"
          using True Cons dn by simp
        then have l: "qesc q (esc2 (c # cs)) @ tail = BS # BS # (qesc q (esc2 cs) @ tail)"
          using qb by (simp add: qesc_simps)
        have e: "emitted q (c # cs) = BS # emitted q cs"
          using True Cons dn by simp
        show ?thesis unfolding l e parse_backslash ih by (simp split: sum.splits)
      qed
    qed
  qed
qed

lemma parse_targeted:
  "parse_template n (targeted_replace w)
   = Inr (map TLit (''string allowSpecialChars = '' @ [DQ] @ emitted SQ w @ [DQ] @ '')''))"
proof -
  have t: "parse_template n ([DQ] @ '')'') = Inr (map TLit ([DQ] @ '')''))"
    using parse_literal_prefix[of "[DQ] @ '')''" n "[]"] by simp
  have e: "parse_template n (qesc SQ (esc2 w) @ [DQ] @ '')'')
           = Inr (map TLit (emitted SQ w) @ map TLit ([DQ] @ '')''))"
    unfolding parse_escaped[of SQ, simplified] t by simp
  have p: "BS \<notin> set (''string allowSpecialChars = '' @ [DQ])" by simp
  have "parse_template n (targeted_replace w)
        = parse_template n ((''string allowSpecialChars = '' @ [DQ]) @ (qesc SQ (esc2 w) @ [DQ] @ '')''))"
    by (simp add: targeted_replace_def escape_str_alt del: parse_template.simps)
  also have "\<dots> = Inr (map TLit (''string allowSpecialChars = '' @ [DQ] @ emitted SQ w @ [DQ] @ '')''))"
    unfolding parse_literal_prefix[OF p] e by (simp del: parse_template.simps)
  finally show ?thesis .
qed

lemma hd_escaped_not_digit:
  assumes "q = DQ \<or> q = SQ" "w = [] \<or> \<not> is_digit (hd w)"
  shows "\<exists>e r. qesc q (esc2 w) @ [BS, CHR ''3''] = e # r \<and> \<not> is_digit e"
proof (cases w)
  case Nil
  then show ?thesis by (simp add: qesc_simps is_digit_def)
next
  case (Cons c cs)
  have nb: "\<not> is_digit BS" by (simp add: is_digit_def)
  have qb: "q \<noteq> BS" using assms(1) by auto
  show ?thesis
  proof (cases "c = BS")
    case True
    have "\<exists>t. esc2 (BS # cs) = BS # t"
    proof (cases cs)
      case Nil
      then show ?thesis by simp
    next
      case (Cons d ds)
      then show ?thesis by (cases "d = CHR ''n''") simp_all
    qed
    then obtain t where "esc2 w = BS # t" using Cons True by blast
    then show ?thesis using nb qb by (simp add: qesc_simps)
  next
    case False
    then have e: "esc2 w = c # esc2 cs" using Cons by simp
    show ?thesis
    proof (cases "c = q")
      case True
      then show ?thesis unfolding e using nb by (simp add: qesc_simps)
    next
      case nq: False
      then show ?thesis unfolding e using assms(2) Cons by (simp add: qesc_simps)
    qed
  qed
qed

lemma parse_find_replace_emitted:
  assumes qs: "(q = DQ \<and> \<not> sq) \<or> (q = SQ \<and> sq)"
    and w: "w = [] \<or> \<not> is_digit (hd w)"
  shows "parse_template 3 (find_replace w sq)
         = Inr (TGroup 1 # TGroup 2 # map TLit (emitted q w) @ [TGroup 3])"
proof -
  have q: "q = DQ \<or> q = SQ" using qs by auto
  have esc: "escape_str w sq = qesc q (esc2 w)"
    using qs by (auto simp: escape_str_alt)
  obtain e r where er: "qesc q (esc2 w) @ [BS, CHR ''3''] = e # r" "\<not> is_digit e"
    using hd_escaped_not_digit[OF q w] by blast
  have body: "parse_template 3 (e # r) = Inr (map TLit (emitted q w) @ [TGroup 3])"
    unfolding er(1)[symmetric] parse_escaped[OF q] parse_group3 by simp
  have nb: "\<not> is_digit BS" by (simp add: is_digit_def)
  have "parse_template 3 (BS # CHR ''2'' # e # r) = Inr (TGroup 2 # map TLit (emitted q w) @ [TGroup 3])"
    unfolding parse_group2[OF er(2)] body by simp
  then have "parse_template 3 (BS # CHR ''1'' # BS # CHR ''2'' # e # r)
             = Inr (TGroup 1 # TGroup 2 # map TLit (emitted q w) @ [TGroup 3])"
    unfolding parse_group1[OF nb] by simp
  moreover have "find_replace w sq = BS # CHR ''1'' # BS # CHR ''2'' # e # r"
    using er(1) by (simp add: find_replace_def esc)
  ultimately show ?thesis by simp
qed

lemma emitted_no_backslash: "BS \<notin> set w \<Longrightarrow> emitted q w = qesc q w"
proof (induction w)
  case Nil
  show ?case by (simp add: qesc_simps)
next
  case (Cons c w)
  then have "c \<noteq> BS" "emitted q w = qesc q w" by auto
  then show ?case by (cases "c = q") (simp_all add: qesc_simps)
qed

lemma pieces_append_nl:
  assumes r: "nl_free r" "nonnull r"
  shows "pieces r (p @ NL # s) = pieces r p @ Keep NL # pieces r s"
proof (induction "length p" arbitrary: p rule: less_induct)
  case less
  show ?case
  proof (cases "NL \<in> set p")
    case False
    then show ?thesis by (rule pieces_local[OF r])
  next
    case True
    then obtain l p' where p: "p = l @ NL # p'" and l: "NL \<notin> set l"
      by (meson split_list_first)
    have "length p' < length p" using p by simp
    then have ih: "pieces r (p' @ NL # s) = pieces r p' @ Keep NL # pieces r s"
      by (rule less)
    have "pieces r (p @ NL # s) = pieces r (l @ NL # (p' @ NL # s))"
      using p by simp
    also have "\<dots> = pieces r l @ Keep NL # pieces r (p' @ NL # s)"
      by (rule pieces_local[OF r l])
    also have "\<dots> = (pieces r l @ Keep NL # pieces r p') @ Keep NL # pieces r s"
      using ih by simp
    also have "pieces r l @ Keep NL # pieces r p' = pieces r p"
      unfolding p by (rule pieces_local[OF r l, symmetric])
    finally show ?thesis .
  qed
qed

lemma pieces_whole_lines:
  assumes r: "nl_free r" "nonnull r" and p: "p = [] \<or> last p = NL"
  shows "pieces r (p @ s) = pieces r p @ pieces r s"
proof (cases "p = []")
  case True
  then show ?thesis by (simp add: match_here_Nil[OF r(2)])
next
  case False
  with p obtain p' where p': "p = p' @ [NL]" by (metis append_butlast_last_id)
  have "pieces r (p @ s) = pieces r p' @ Keep NL # pieces r s"
    unfolding p' using pieces_append_nl[OF r, of p' s] by simp
  moreover have "pieces r p = pieces r p' @ [Keep NL]"
    unfolding p' using pieces_append_nl[OF r, of p' "[]"] by (simp add: match_here_Nil[OF r(2)])
  ultimately show ?thesis by simp
qed

lemma pieces_no_hit: "re_findall r s = [] \<Longrightarrow> pieces r s = map Keep s"
proof (induction r s rule: pieces.induct)
  case (1 r)
  then show ?case by (cases "match_here r []") (auto simp: re_findall_def)
next
  case (2 r c cs)
  show ?case
  proof (cases "match_here r (c # cs)")
    case None
    with 2 show ?thesis by (simp add: re_findall_def)
  next
    case (Some x)
    obtain rest g where "x = (rest, g)" by (cases x)
    with Some "2.prems" show ?thesis by (simp add: re_findall_def split: if_splits)
  qed
qed

lemma expand_all_lits: "expand_template (map TLit t) g = t"
  using expand_lits[of g t] by (simp add: expand_template_def comp_def)

lemma lits_nl_free: "NL \<notin> set x \<Longrightarrow> nl_free (lits x)"
  by (induction x) auto

lemma lits_nonnull: "x \<noteq> [] \<Longrightarrow> nonnull (lits x)"
  by (cases x) auto

lemma targeted_pattern_nl_free: "nl_free targeted_pattern"
  unfolding targeted_pattern_def by (simp add: lits_nl_free del: lits.simps)

lemma no_prefix_no_match:
  "\<not> prefix m s \<Longrightarrow> match_here (Seq (lits m) R) s = None"
  unfolding match_here_def seq_lits_outcomes by simp

lemma prefix_shorten:
  assumes "prefix m (x @ m @ t)" "x \<noteq> []"
  shows "prefix m (x @ butlast m)"
proof (cases "m = []")
  case True
  then show ?thesis by simp
next
  case False
  then have "m = butlast m @ [last m]" by simp
  then have "x @ m @ t = (x @ butlast m) @ (last m # t)"
    by (metis append.assoc append_Cons append_Nil)
  with assms(1) have "prefix m ((x @ butlast m) @ (last m # t))" by simp
  then consider "prefix m (x @ butlast m)" | us where "m = (x @ butlast m) @ us"
    unfolding prefix_append by blast
  then show ?thesis
  proof cases
    case 1
    then show ?thesis .
  next
    case 2
    then have "length m = length x + length (butlast m) + length us"
      by (metis length_append)
    moreover have "length (butlast m) = length m - 1" by simp
    moreover have "0 < length x" "0 < length m" using assms(2) False by simp_all
    ultimately have "length us = 0" by arith
    then have "us = []" by simp
    with 2 show ?thesis by simp
  qed
qed

lemma pieces_hit:
  "match_here r s = Some (rest, g) \<Longrightarrow> length rest < length s \<Longrightarrow>
     pieces r s = Hit g # pieces r rest"
  by (cases s) auto

lemma pieces_lits_pre:
  "\<not> occurs m (l0 @ butlast m) \<Longrightarrow>
     pieces (Seq (lits m) R) (l0 @ m @ t) = map Keep l0 @ pieces (Seq (lits m) R) (m @ t)"
proof (induction l0)
  case Nil
  show ?case by simp
next
  case (Cons c l0)
  from Cons.prems have np: "\<not> prefix m ((c # l0) @ butlast m)" and no: "\<not> occurs m (l0 @ butlast m)"
    by auto
  have "\<not> prefix m ((c # l0) @ m @ t)"
    using np prefix_shorten[of m "c # l0" t] by blast
  then have "match_here (Seq (lits m) R) (c # l0 @ m @ t) = None"
    using no_prefix_no_match[of m "c # l0 @ m @ t" R] by simp
  then show ?case using Cons.IH[OF no] by simp
qed

lemma re_sub_first_hit:
  assumes parse: "parse_template (groups_of r) repl = Inr items"
    and pre: "pieces r (P @ s) = map Keep P @ pieces r s"
    and m: "match_here r s = Some (rest, g)" and len: "length rest < length s"
  shows "re_sub r repl rest = Inr (concat (map (render items) (pieces r rest))) \<and>
         re_sub r repl (P @ s)
         = Inr (P @ expand_template items g @ concat (map (render items) (pieces r rest)))"
proof -
  have "pieces r (P @ s) = map Keep P @ Hit g # pieces r rest"
    unfolding pre pieces_hit[OF m len] ..
  then have "concat (map (render items) (pieces r (P @ s)))
             = P @ expand_template items g @ concat (map (render items) (pieces r rest))"
    using render_Keep[of items P] by (simp add: render_def)
  then show ?thesis unfolding re_sub_def parse by simp
qed

text \<open>
  Claim C3.  In the targeted rewrite the pattern that starts at \<open>string allowSpecialChars\<close>
  matches up to the last closing parenthesis of the same line, not the first.  Take a file
  in which the rewrite finds nothing on the lines \<open>pre\<close>, the name does not begin in \<open>l0\<close>,
  and the name is followed on its line by \<open>a\<close> (closing parentheses included), a closing
  parenthesis, and a \<open>rest\<close> with no closing parenthesis before the end of the line: for
  every whitelist the span from the name to that last parenthesis is replaced by the
  declaration, and the rest of the file is rewritten in the same way.
\<close>
theorem targeted_rewrite_greedy:
  assumes a: "NL \<notin> set a" and rest: "CHR '')'' \<notin> set (line_of rest)"
    and pre: "re_findall targeted_pattern pre = []" "pre = [] \<or> last pre = NL"
    and l0: "\<not> occurs ''string allowSpecialChars'' (l0 @ ''string allowSpecialChar'')"
  shows "\<exists>rest'. targeted_rewrite w rest = Inr rest' \<and>
           targeted_rewrite w (pre @ l0 @ ''string allowSpecialChars'' @ a @ '')'' @ rest)
           = Inr (pre @ l0 @ (''string allowSpecialChars = '' @ [DQ] @ emitted SQ w @ [DQ] @ '')'')
                  @ rest')"
proof -
  define name where "name = ''string allowSpecialChars''"
  define new where "new = ''string allowSpecialChars = '' @ [DQ] @ emitted SQ w @ [DQ] @ '')''"
  define s where "s = name @ a @ '')'' @ rest"
  define g where "g = [(0 :: nat, name @ a @ '')'')]"
  have parse: "parse_template (groups_of targeted_pattern) (targeted_replace w) = Inr (map TLit new)"
    unfolding new_def by (rule parse_targeted)
  have m: "match_here targeted_pattern s = Some (rest, g)"
    unfolding s_def g_def name_def by (rule targeted_match_greedy[OF a rest])
  have len: "length rest < length s"
    unfolding s_def name_def by simp
  have bl: "butlast name = ''string allowSpecialChar''" unfolding name_def by simp
  have tp: "targeted_pattern = Seq (lits name) (Seq (Star Dot) (Atom (Lit (CHR '')''))))"
    unfolding targeted_pattern_def name_def ..
  have "\<not> occurs name (l0 @ butlast name)"
    unfolding bl using l0 unfolding name_def .
  then have k: "pieces targeted_pattern (l0 @ s) = map Keep l0 @ pieces targeted_pattern s"
    unfolding tp s_def by (rule pieces_lits_pre)
  have "pieces targeted_pattern (pre @ (l0 @ s)) = map Keep pre @ pieces targeted_pattern (l0 @ s)"
    unfolding pieces_whole_lines[OF targeted_pattern_nl_free targeted_pattern_nonnull pre(2)]
      pieces_no_hit[OF pre(1)] ..
  then have pp: "pieces targeted_pattern ((pre @ l0) @ s) = map Keep (pre @ l0) @ pieces targeted_pattern s"
    unfolding k by simp
  from re_sub_first_hit[OF parse pp m len]
  have "targeted_rewrite w rest
          = Inr (concat (map (render (map TLit new)) (pieces targeted_pattern rest))) \<and>
        targeted_rewrite w ((pre @ l0) @ s)
          = Inr ((pre @ l0) @ new @ concat (map (render (map TLit new)) (pieces targeted_pattern rest)))"
    unfolding targeted_rewrite_def expand_all_lits .
  then have "\<exists>rest'. targeted_rewrite w rest = Inr rest' \<and>
        targeted_rewrite w ((pre @ l0) @ s) = Inr ((pre @ l0) @ new @ rest')"
    by blast
  then show ?thesis
    unfolding s_def name_def new_def by (simp only: append_assoc)
qed

text \<open>
  A file whose first line names \<open>string allowSpecialChars\<close> with no parenthesis behind it and
  whose second line has two closing parentheses behind the assignment: the first line stays,
  and on the second the replaced span runs to the second parenthesis.
\<close>
theorem targeted_rewrite_greedy_witness:
  "NL \<notin> set ('' = '' @ [DQ] @ ''abc'' @ [DQ] @ '') { g(x'') \<and>
   CHR '')'' \<notin> set (line_of (''; }'' @ [NL] @ ''h(y)'')) \<and>
   re_findall targeted_pattern (''// string allowSpecialChars'' @ [NL]) = [] \<and>
   last (''// string allowSpecialChars'' @ [NL]) = NL \<and>
   \<not> occurs ''string allowSpecialChars'' (''f('' @ ''string allowSpecialChar'') \<and>
   targeted_rewrite ''Q''
     ((''// string allowSpecialChars'' @ [NL]) @ ''f('' @ ''string allowSpecialChars''
        @ ('' = '' @ [DQ] @ ''abc'' @ [DQ] @ '') { g(x'') @ '')'' @ (''; }'' @ [NL] @ ''h(y)''))
   = Inr ((''// string allowSpecialChars'' @ [NL]) @ ''f(''
        @ (''string allowSpecialChars = '' @ [DQ] @ ''Q'' @ [DQ] @ '')'')
        @ (''; }'' @ [NL] @ ''h(y)''))"
proof -
  have h1: "NL \<notin> set ('' = '' @ [DQ] @ ''abc'' @ [DQ] @ '') { g(x'')" by simp
  have h2: "CHR '')'' \<notin> set (line_of (''; }'' @ [NL] @ ''h(y)''))" by (simp add: line_of_def)
  have h3: "re_findall targeted_pattern (''// string allowSpecialChars'' @ [NL]) = []"
    by code_simp
  have h4: "''// string allowSpecialChars'' @ [NL] = [] \<or> last (''// string allowSpecialChars'' @ [NL]) = NL"
    by simp
  have h5: "\<not> occurs ''string allowSpecialChars'' (''f('' @ ''string allowSpecialChar'')"
    by code_simp
  have r: "targeted_rewrite ''Q'' (''; }'' @ [NL] @ ''h(y)'') = Inr (''; }'' @ [NL] @ ''h(y)'')"
    by code_simp
  have e: "emitted SQ ''Q'' = ''Q''" by code_simp
  from targeted_rewrite_greedy[OF h1 h2 h3 h4 h5, of "''Q''"] r
  have "targeted_rewrite ''Q''
     ((''// string allowSpecialChars'' @ [NL]) @ ''f('' @ ''string allowSpecialChars''
        @ ('' = '' @ [DQ] @ ''abc'' @ [DQ] @ '') { g(x'') @ '')'' @ (''; }'' @ [NL] @ ''h(y)''))
   = Inr ((''// string allowSpecialChars'' @ [NL]) @ ''f(''
        @ (''string allowSpecialChars = '' @ [DQ] @ emitted SQ ''Q'' @ [DQ] @ '')'')
        @ (''; }'' @ [NL] @ ''h(y)''))"
    by auto
  then show ?thesis unfolding e using h1 h2 h3 h5 by simp
qed

section \<open>What the two rules rewrite\<close>

lemma after_star_all_empty:
  "(\<And>p r. suffix r t \<Longrightarrow> F p r = []) \<Longrightarrow> after_star a F p t = []"
proof (induction t arbitrary: p)
  case Nil
  then show ?case by (simp add: after_star_Nil)
next
  case (Cons c t)
  have here: "F p (c # t) = []" by (rule Cons.prems) simp
  have "after_star a F (p @ [c]) t = []"
    by (rule Cons.IH, rule Cons.prems) (simp add: suffix_ConsI)
  then show ?case unfolding after_star_Cons using here by simp
qed

lemma occurs_suffix: "prefix n r \<Longrightarrow> suffix r s \<Longrightarrow> occurs n s"
proof (induction s)
  case Nil
  then show ?case by simp
next
  case (Cons c s)
  from Cons.prems(2) have "r = c # s \<or> suffix r s" by (simp add: suffix_Cons)
  then show ?case using Cons by auto
qed

lemma no_needle_no_match:
  assumes "\<not> occurs ''a-zA-Z'' s" "\<not> occurs ''A-Za-z'' s"
  shows "match_here (find_pattern q) s = None"
proof (cases s)
  case Nil
  then show ?thesis by (simp add: match_here_Nil[OF find_pattern_nonnull])
next
  case (Cons c t)
  show ?thesis
  proof (cases "c = q")
    case False
    then show ?thesis unfolding Cons by (rule find_pattern_no_match)
  next
    case True
    let ?R = "Seq (Group 2 (Alt (lits ''a-zA-Z'') (lits ''A-Za-z'')))
                (Group 3 (Seq (Star (NotLit NL)) (Atom (Lit q))))"
    have "after_star (NotLit NL) (\<lambda>p rest. outcomes ?R rest ((1, q # p) # [])) [] t = []"
    proof (rule after_star_all_empty)
      fix p r assume "suffix r t"
      then have sr: "suffix r s" unfolding Cons by (simp add: suffix_ConsI)
      have "\<not> prefix ''a-zA-Z'' r" using occurs_suffix[OF _ sr] assms(1) by blast
      moreover have "\<not> prefix ''A-Za-z'' r" using occurs_suffix[OF _ sr] assms(2) by blast
      ultimately show "outcomes ?R r ((1, q # p) # []) = []"
        unfolding rest_outcomes by (simp del: outcomes.simps)
    qed
    then have "outcomes (find_pattern q) (q # t) [] = []"
      unfolding find_pattern_def seq_group1_outcomes .
    then show ?thesis unfolding Cons True by (simp add: match_here_def)
  qed
qed

lemma pieces_no_needle:
  "\<not> occurs ''a-zA-Z'' s \<Longrightarrow> \<not> occurs ''A-Za-z'' s \<Longrightarrow> pieces (find_pattern q) s = map Keep s"
proof (induction s)
  case Nil
  show ?case by (simp add: match_here_Nil[OF find_pattern_nonnull])
next
  case (Cons c s)
  have "match_here (find_pattern q) (c # s) = None"
    by (rule no_needle_no_match[OF Cons.prems])
  moreover from Cons.prems have "\<not> occurs ''a-zA-Z'' s" "\<not> occurs ''A-Za-z'' s" by auto
  ultimately show ?case using Cons.IH by simp
qed

text \<open>
  Claim C1 as stated fails: the double-quote rule leaves the literal \<open>"hello world"\<close> as it
  is, and does not produce \<open>"hXYZello world"\<close>, because the second group of the pattern is
  the text \<open>a-zA-Z\<close> or \<open>A-Za-z\<close> and not an ASCII letter.
\<close>
theorem hello_world_not_rewritten:
  "re_sub (find_pattern DQ) (find_replace ''XYZ'' False) ([DQ] @ ''hello world'' @ [DQ])
     = Inr ([DQ] @ ''hello world'' @ [DQ]) \<and>
   re_sub (find_pattern DQ) (find_replace ''XYZ'' False) ([DQ] @ ''hello world'' @ [DQ])
     \<noteq> Inr ([DQ] @ ''hXYZello world'' @ [DQ])"
  by code_simp

text \<open>
  Claim C1, amended.  For each of the two rules (double quote with \<open>escape_str _ False\<close>,
  single quote with \<open>escape_str _ True\<close>) and a whitelist with no backslash that does not
  start with a digit: a content in which neither of the six-character texts \<open>a-zA-Z\<close> and
  \<open>A-Za-z\<close> occurs is returned as it is, whatever quotes it has; and where the rule finds
  nothing on the lines \<open>pre\<close> and no quote of its kind in \<open>l0\<close>, a quoted span that runs to
  the last such quote of its line and contains such a text is split into group 1 (from the
  opening quote up to the last occurrence \<open>n\<close> of such a text), group 2 (\<open>n\<close>) and group 3 (up
  to the closing quote) and is emitted again with the escaped whitelist right behind \<open>n\<close>,
  the text behind the span being rewritten in the same way.
\<close>
theorem find_rule_rewrites_literal:
  assumes qs: "(q = DQ \<and> \<not> sq) \<or> (q = SQ \<and> sq)"
    and w: "BS \<notin> set w" "w = [] \<or> \<not> is_digit (hd w)"
  shows "(\<not> occurs ''a-zA-Z'' content \<and> \<not> occurs ''A-Za-z'' content \<longrightarrow>
            re_sub (find_pattern q) (find_replace w sq) content = Inr content) \<and>
         ((n = ''a-zA-Z'' \<or> n = ''A-Za-z'') \<and> NL \<notin> set x \<and> NL \<notin> set b \<and>
          \<not> occurs ''a-zA-Z'' (tl (n @ b)) \<and> \<not> occurs ''A-Za-z'' (tl (n @ b)) \<and>
          q \<notin> set (line_of z) \<and> q \<notin> set l0 \<and>
          re_findall (find_pattern q) pre = [] \<and> (pre = [] \<or> last pre = NL) \<longrightarrow>
            (\<exists>z'. re_sub (find_pattern q) (find_replace w sq) z = Inr z' \<and>
                  re_sub (find_pattern q) (find_replace w sq)
                    (pre @ l0 @ [q] @ x @ n @ b @ [q] @ z)
                  = Inr (pre @ l0 @ [q] @ x @ n @ escape_str w sq @ b @ [q] @ z')))"
proof -
  let ?items = "TGroup 1 # TGroup 2 # map TLit (escape_str w sq) @ [TGroup 3]"
  have q: "q = DQ \<or> q = SQ" using qs by auto
  have qn: "q \<noteq> NL" using q by auto
  have parse: "parse_template (groups_of (find_pattern q)) (find_replace w sq) = Inr ?items"
    unfolding groups_of_find_pattern by (rule parse_find_replace[OF qs w])
  show ?thesis
  proof (intro conjI impI)
    assume "\<not> occurs ''a-zA-Z'' content \<and> \<not> occurs ''A-Za-z'' content"
    then have "pieces (find_pattern q) content = map Keep content"
      using pieces_no_needle by blast
    then show "re_sub (find_pattern q) (find_replace w sq) content = Inr content"
      unfolding re_sub_def parse using render_Keep[of ?items content] by simp
  next
    assume h: "(n = ''a-zA-Z'' \<or> n = ''A-Za-z'') \<and> NL \<notin> set x \<and> NL \<notin> set b \<and>
          \<not> occurs ''a-zA-Z'' (tl (n @ b)) \<and> \<not> occurs ''A-Za-z'' (tl (n @ b)) \<and>
          q \<notin> set (line_of z) \<and> q \<notin> set l0 \<and>
          re_findall (find_pattern q) pre = [] \<and> (pre = [] \<or> last pre = NL)"
    define s where "s = q # x @ n @ b @ q # z"
    define g where "g = [(0 :: nat, q # x @ n @ b @ [q]), (3, b @ [q]), (2, n), (1, q # x)]"
    have m: "match_here (find_pattern q) s = Some (z, g)"
      unfolding s_def g_def using find_match[OF q, of n x b z] h by blast
    have len: "length z < length s" unfolding s_def by simp
    have k: "pieces (find_pattern q) (l0 @ s) = map Keep l0 @ pieces (find_pattern q) s"
      using pieces_pre h by blast
    have "pieces (find_pattern q) (pre @ (l0 @ s))
          = map Keep pre @ pieces (find_pattern q) (l0 @ s)"
      using pieces_whole_lines[OF find_pattern_nl_free[OF qn] find_pattern_nonnull, of pre "l0 @ s"]
        pieces_no_hit[of "find_pattern q" pre] h by simp
    then have pp: "pieces (find_pattern q) ((pre @ l0) @ s)
                   = map Keep (pre @ l0) @ pieces (find_pattern q) s"
      unfolding k by simp
    have e: "expand_template ?items g = q # x @ n @ escape_str w sq @ b @ [q]"
      unfolding expand_find g_def by (simp add: group_def)
    from re_sub_first_hit[OF parse pp m len]
    have "\<exists>z'. re_sub (find_pattern q) (find_replace w sq) z = Inr z' \<and>
               re_sub (find_pattern q) (find_replace w sq) ((pre @ l0) @ s)
               = Inr ((pre @ l0) @ (q # x @ n @ escape_str w sq @ b @ [q]) @ z')"
      unfolding e by blast
    then show "\<exists>z'. re_sub (find_pattern q) (find_replace w sq) z = Inr z' \<and>
                  re_sub (find_pattern q) (find_replace w sq)
                    (pre @ l0 @ [q] @ x @ n @ b @ [q] @ z)
                  = Inr (pre @ l0 @ [q] @ x @ n @ escape_str w sq @ b @ [q] @ z')"
      unfolding s_def by simp
  qed
qed

text \<open>
  With the whitelist \<open>XYZ\<close> the literal \<open>"hello world"\<close> is returned as it is, and in a file
  whose first line is \<open>"foo"\<close> and whose second line is \<open>x = "[^a-zA-Z0-9_]"\<close> the second
  literal becomes \<open>"[^a-zA-ZXYZ0-9_]"\<close>.
\<close>
theorem find_rule_rewrites_literal_witness:
  "BS \<notin> set ''XYZ'' \<and> \<not> is_digit (hd ''XYZ'') \<and>
   \<not> occurs ''a-zA-Z'' ([DQ] @ ''hello world'' @ [DQ]) \<and>
   \<not> occurs ''A-Za-z'' ([DQ] @ ''hello world'' @ [DQ]) \<and>
   re_sub (find_pattern DQ) (find_replace ''XYZ'' False) ([DQ] @ ''hello world'' @ [DQ])
     = Inr ([DQ] @ ''hello world'' @ [DQ]) \<and>
   NL \<notin> set ''[^'' \<and> NL \<notin> set ''0-9_]'' \<and>
   \<not> occurs ''a-zA-Z'' (tl (''a-zA-Z'' @ ''0-9_]'')) \<and>
   \<not> occurs ''A-Za-z'' (tl (''a-zA-Z'' @ ''0-9_]'')) \<and>
   DQ \<notin> set ''x = '' \<and>
   re_findall (find_pattern DQ) ([DQ] @ ''foo'' @ [DQ] @ [NL]) = [] \<and>
   last ([DQ] @ ''foo'' @ [DQ] @ [NL]) = NL \<and>
   re_sub (find_pattern DQ) (find_replace ''XYZ'' False)
     (([DQ] @ ''foo'' @ [DQ] @ [NL]) @ ''x = '' @ [DQ] @ ''[^'' @ ''a-zA-Z'' @ ''0-9_]'' @ [DQ] @ [])
   = Inr (([DQ] @ ''foo'' @ [DQ] @ [NL]) @ ''x = '' @ [DQ] @ ''[^'' @ ''a-zA-Z'' @ ''XYZ''
            @ ''0-9_]'' @ [DQ])"
proof -
  have qs: "(DQ = DQ \<and> \<not> False) \<or> (DQ = SQ \<and> False)" by simp
  have w: "BS \<notin> set ''XYZ''" "''XYZ'' = [] \<or> \<not> is_digit (hd ''XYZ'')"
    by (simp_all add: is_digit_def)
  have a: "\<not> occurs ''a-zA-Z'' ([DQ] @ ''hello world'' @ [DQ]) \<and>
           \<not> occurs ''A-Za-z'' ([DQ] @ ''hello world'' @ [DQ])"
    by code_simp
  have b: "(''a-zA-Z'' = ''a-zA-Z'' \<or> ''a-zA-Z'' = ''A-Za-z'') \<and>
          NL \<notin> set ''[^'' \<and> NL \<notin> set ''0-9_]'' \<and>
          \<not> occurs ''a-zA-Z'' (tl (''a-zA-Z'' @ ''0-9_]'')) \<and>
          \<not> occurs ''A-Za-z'' (tl (''a-zA-Z'' @ ''0-9_]'')) \<and>
          DQ \<notin> set (line_of []) \<and> DQ \<notin> set ''x = '' \<and>
          re_findall (find_pattern DQ) ([DQ] @ ''foo'' @ [DQ] @ [NL]) = [] \<and>
          ([DQ] @ ''foo'' @ [DQ] @ [NL] = [] \<or> last ([DQ] @ ''foo'' @ [DQ] @ [NL]) = NL)"
    by code_simp
  have z: "re_sub (find_pattern DQ) (find_replace ''XYZ'' False) [] = Inr []"
    by code_simp
  have e: "escape_str ''XYZ'' False = ''XYZ''"
    by code_simp
  note t = find_rule_rewrites_literal[OF qs w,
      of "[DQ] @ ''hello world'' @ [DQ]" "''a-zA-Z''" "''[^''" "''0-9_]''" "[]" "''x = ''"
         "[DQ] @ ''foo'' @ [DQ] @ [NL]"]
  from t a have u: "re_sub (find_pattern DQ) (find_replace ''XYZ'' False) ([DQ] @ ''hello world'' @ [DQ])
     = Inr ([DQ] @ ''hello world'' @ [DQ])"
    by blast
  from t b obtain z' where "re_sub (find_pattern DQ) (find_replace ''XYZ'' False) [] = Inr z'"
    and "re_sub (find_pattern DQ) (find_replace ''XYZ'' False)
           (([DQ] @ ''foo'' @ [DQ] @ [NL]) @ ''x = '' @ [DQ] @ ''[^'' @ ''a-zA-Z'' @ ''0-9_]'' @ [DQ] @ [])
         = Inr (([DQ] @ ''foo'' @ [DQ] @ [NL]) @ ''x = '' @ [DQ] @ ''[^'' @ ''a-zA-Z''
                  @ escape_str ''XYZ'' False @ ''0-9_]'' @ [DQ] @ z')"
    by blast
  with z e have v: "re_sub (find_pattern DQ) (find_replace ''XYZ'' False)
     (([DQ] @ ''foo'' @ [DQ] @ [NL]) @ ''x = '' @ [DQ] @ ''[^'' @ ''a-zA-Z'' @ ''0-9_]'' @ [DQ] @ [])
   = Inr (([DQ] @ ''foo'' @ [DQ] @ [NL]) @ ''x = '' @ [DQ] @ ''[^'' @ ''a-zA-Z'' @ ''XYZ''
            @ ''0-9_]'' @ [DQ])"
    by simp
  from w a b u v show ?thesis by simp
qed

section \<open>One insertion on a line\<close>

lemma group_free_caps:
  "group_free r \<Longrightarrow> (rest, g') \<in> set (outcomes r s g) \<Longrightarrow> g' = g"
proof (induction r arbitrary: s g rest g')
  case (Atom a)
  then show ?case by (auto split: list.splits if_splits)
next
  case (Seq r1 r2)
  from Seq.prems obtain mid g1 where
    m1: "(mid, g1) \<in> set (outcomes r1 s g)" and m2: "(rest, g') \<in> set (outcomes r2 mid g1)"
    by auto
  from Seq.IH(1)[OF _ m1] Seq.prems(1) have "g1 = g" by simp
  with Seq.IH(2)[OF _ m2] Seq.prems(1) show ?case by simp
qed auto

lemma group_free_lits: "group_free (lits x)"
  by (induction x) auto

lemma group_outcome:
  assumes "group_free r" "nl_free r" "(rest, g') \<in> set (outcomes (Group k r) s g)"
  shows "\<exists>m. s = m @ rest \<and> g' = (k, m) # g"
proof -
  from assms(3) obtain g'' where in_r: "(rest, g'') \<in> set (outcomes r s g)"
    and g': "g' = (k, take (length s - length rest) s) # g''"
    by auto
  from group_free_caps[OF assms(1) in_r] have "g'' = g" .
  moreover from outcomes_split[OF assms(2) in_r] obtain m where m: "s = m @ rest" by blast
  moreover have "take (length (m @ rest) - length rest) (m @ rest) = m" by (rule take_consumed)
  ultimately show ?thesis using g' by auto
qed

lemma seq_outcome:
  "(rest, g') \<in> set (outcomes (Seq r1 r2) s g) \<Longrightarrow>
     \<exists>mid g1. (mid, g1) \<in> set (outcomes r1 s g) \<and> (rest, g') \<in> set (outcomes r2 mid g1)"
  by auto

lemma find_outcome_shape:
  assumes q: "q \<noteq> NL" and o: "(rest, g') \<in> set (outcomes (find_pattern q) s g)"
  shows "\<exists>m1 m2 m3. s = m1 @ m2 @ m3 @ rest \<and> g' = (3, m3) # (2, m2) # (1, m1) # g"
proof -
  let ?r1 = "Seq (Atom (Lit q)) (Star (NotLit NL))"
  let ?r2 = "Alt (lits ''a-zA-Z'') (lits ''A-Za-z'')"
  let ?r3 = "Seq (Star (NotLit NL)) (Atom (Lit q))"
  have gf: "group_free ?r1" "group_free ?r2" "group_free ?r3"
    by (simp_all add: group_free_lits del: lits.simps)
  have nf: "nl_free ?r1" "nl_free ?r2" "nl_free ?r3"
    using q by (simp_all add: lits_nl_free del: lits.simps)
  from o have "(rest, g') \<in> set (outcomes (Seq (Group 1 ?r1) (Seq (Group 2 ?r2) (Group 3 ?r3))) s g)"
    unfolding find_pattern_def .
  from seq_outcome[OF this] obtain s1 g1 where
    o1: "(s1, g1) \<in> set (outcomes (Group 1 ?r1) s g)" and
    o23: "(rest, g') \<in> set (outcomes (Seq (Group 2 ?r2) (Group 3 ?r3)) s1 g1)"
    by blast
  from seq_outcome[OF o23] obtain s2 g2 where
    o2: "(s2, g2) \<in> set (outcomes (Group 2 ?r2) s1 g1)" and
    o3: "(rest, g') \<in> set (outcomes (Group 3 ?r3) s2 g2)"
    by blast
  from group_outcome[OF gf(1) nf(1) o1] obtain m1 where "s = m1 @ s1" "g1 = (1, m1) # g" by blast
  moreover from group_outcome[OF gf(2) nf(2) o2] obtain m2 where "s1 = m2 @ s2" "g2 = (2, m2) # g1"
    by blast
  moreover from group_outcome[OF gf(3) nf(3) o3] obtain m3 where "s2 = m3 @ rest" "g' = (3, m3) # g2"
    by blast
  ultimately show ?thesis by auto
qed

lemma find_match_shape:
  assumes q: "q \<noteq> NL" and m: "match_here (find_pattern q) s = Some (rest, g)"
  shows "\<exists>m1 m2 m3. s = m1 @ m2 @ m3 @ rest \<and>
           g = [(0, m1 @ m2 @ m3), (3, m3), (2, m2), (1, m1)]"
proof -
  from m obtain g' xs where o: "outcomes (find_pattern q) s [] = (rest, g') # xs"
    and g: "g = (0, take (length s - length rest) s) # g'"
    by (auto simp: match_here_def split: list.splits)
  from o have "(rest, g') \<in> set (outcomes (find_pattern q) s [])" by simp
  from find_outcome_shape[OF q this] obtain m1 m2 m3 where
    s: "s = m1 @ m2 @ m3 @ rest" and g': "g' = [(3, m3), (2, m2), (1, m1)]" by blast
  have "take (length ((m1 @ m2 @ m3) @ rest) - length rest) ((m1 @ m2 @ m3) @ rest) = m1 @ m2 @ m3"
    by (rule take_consumed)
  then have "take (length s - length rest) s = m1 @ m2 @ m3" unfolding s by simp
  with g g' s show ?thesis by blast
qed

lemma inserted_onceI: "l = l1 @ l2 \<Longrightarrow> out = l1 @ ins @ l2 \<Longrightarrow> inserted_once ins l out"
  unfolding inserted_once_def list_ex_iff
  by (rule bexI[where x = "length l1"]) auto

lemma inserted_once_Cons: "inserted_once ins l out \<Longrightarrow> inserted_once ins (c # l) (c # out)"
proof -
  assume "inserted_once ins l out"
  then obtain k where "out = take k l @ ins @ drop k l"
    unfolding inserted_once_def list_ex_iff by blast
  then have "c # l = (c # take k l) @ drop k l" "c # out = (c # take k l) @ ins @ drop k l"
    by simp_all
  then show ?thesis by (rule inserted_onceI)
qed

lemma render_simps:
  "render items (Keep c) = [c]" "render items (Hit g) = expand_template items g"
  by (simp_all add: render_def)

lemma line_rewritten:
  assumes q: "q \<noteq> NL"
  shows "NL \<notin> set l \<Longrightarrow>
    (let out = concat (map (render (TGroup 1 # TGroup 2 # map TLit ins @ [TGroup 3]))
                 (pieces (find_pattern q) l))
     in out = l \<or> inserted_once ins l out)"
proof (induction l)
  case Nil
  show ?case by (simp add: match_here_Nil[OF find_pattern_nonnull])
next
  case (Cons c cs)
  let ?items = "TGroup 1 # TGroup 2 # map TLit ins @ [TGroup 3]"
  show ?case
  proof (cases "match_here (find_pattern q) (c # cs)")
    case None
    define out where "out = concat (map (render ?items) (pieces (find_pattern q) cs))"
    from Cons have ih: "out = cs \<or> inserted_once ins cs out"
      unfolding out_def by (simp add: Let_def)
    have "concat (map (render ?items) (pieces (find_pattern q) (c # cs))) = c # out"
      unfolding out_def using None by (simp add: render_simps)
    moreover have "c # out = c # cs \<or> inserted_once ins (c # cs) (c # out)"
      using ih inserted_once_Cons[of ins cs out c] by blast
    ultimately show ?thesis by (simp add: Let_def del: pieces.simps)
  next
    case (Some v)
    obtain rest g where "v = (rest, g)" by (cases v)
    with Some have m: "match_here (find_pattern q) (c # cs) = Some (rest, g)" by simp
    from match_here_shorter[OF find_pattern_nonnull m] have len: "length rest < length (c # cs)" .
    from match_here_rest_nl_free[OF find_pattern_nl_free[OF q] m Cons.prems]
    have "NL \<notin> set rest" .
    with match_here_ends_line[OF q m] have "q \<notin> set rest" by (simp add: line_of_no_nl)
    then have k: "pieces (find_pattern q) rest = map Keep rest" by (rule pieces_no_quote)
    from find_match_shape[OF q m] obtain m1 m2 m3 where
      s: "c # cs = m1 @ m2 @ m3 @ rest" and g: "g = [(0, m1 @ m2 @ m3), (3, m3), (2, m2), (1, m1)]"
      by blast
    have e: "expand_template ?items g = m1 @ m2 @ ins @ m3"
      unfolding expand_find g by (simp add: group_def)
    have "concat (map (render ?items) (pieces (find_pattern q) (c # cs)))
          = (m1 @ m2) @ ins @ (m3 @ rest)"
      unfolding pieces_hit[OF m len] k using render_Keep[of ?items rest] e
      by (simp add: render_simps)
    moreover have "c # cs = (m1 @ m2) @ (m3 @ rest)" using s by simp
    ultimately have "inserted_once ins (c # cs)
        (concat (map (render ?items) (pieces (find_pattern q) (c # cs))))"
      using inserted_onceI by blast
    then show ?thesis by (simp add: Let_def del: pieces.simps)
  qed
qed

lemma render_join_lines:
  "concat (map (render items) (join_lines pss))
   = join_text (map (\<lambda>ps. concat (map (render items) ps)) pss)"
  by (induction pss rule: join_lines.induct) (simp_all add: render_simps)

text \<open>
  Claim C10.  For each of the two rules of \<open>FIND\<close>, one application to any content inserts the
  whitelist at most once on every line: the walk over the content is the walk over its lines
  one by one (no match crosses a line feed), on a line the rule matches at most once, and
  (for a whitelist that does not start with a digit, so that the replacement is the three
  groups with the whitelist behind the second) what \<open>re.sub\<close> returns is, line by line, the
  line itself or the line with the whitelist, as \<open>re.sub\<close> emits its escaped form, put in at
  one place.
\<close>
theorem one_insertion_per_line:
  assumes "(find_pattern q, repl) \<in> set (FIND w)"
  shows "pieces (find_pattern q) content
           = join_lines (map (pieces (find_pattern q)) (split_lines content)) \<and>
         (\<forall>l \<in> set (split_lines content). length (re_findall (find_pattern q) l) \<le> 1) \<and>
         (w = [] \<or> \<not> is_digit (hd w) \<longrightarrow>
            (\<exists>outs. re_sub (find_pattern q) repl content = Inr (join_text outs) \<and>
                    list_all2 (\<lambda>l out. out = l \<or> inserted_once (emitted q w) l out)
                      (split_lines content) outs))"
proof -
  from assms have "(find_pattern q = find_pattern DQ \<and> repl = find_replace w False) \<or>
                   (find_pattern q = find_pattern SQ \<and> repl = find_replace w True)"
    by (auto simp: FIND_def)
  then obtain sq where qs: "(q = DQ \<and> \<not> sq) \<or> (q = SQ \<and> sq)" and repl: "repl = find_replace w sq"
    by (auto simp: find_pattern_def)
  have q: "q = DQ \<or> q = SQ" using qs by auto
  have qn: "q \<noteq> NL" using q by auto
  have by_line: "pieces (find_pattern q) content
                 = join_lines (map (pieces (find_pattern q)) (split_lines content))"
    by (intro pieces_by_line find_pattern_nl_free find_pattern_nonnull qn)
  have bound: "\<forall>l \<in> set (split_lines content). length (re_findall (find_pattern q) l) \<le> 1"
    by (rule findall_line_bound[OF q])
  have ins: "\<exists>outs. re_sub (find_pattern q) repl content = Inr (join_text outs) \<and>
                    list_all2 (\<lambda>l out. out = l \<or> inserted_once (emitted q w) l out)
                      (split_lines content) outs"
    if w: "w = [] \<or> \<not> is_digit (hd w)"
  proof -
    let ?items = "TGroup 1 # TGroup 2 # map TLit (emitted q w) @ [TGroup 3]"
    let ?f = "\<lambda>l. concat (map (render ?items) (pieces (find_pattern q) l))"
    have parse: "parse_template (groups_of (find_pattern q)) repl = Inr ?items"
      unfolding groups_of_find_pattern repl by (rule parse_find_replace_emitted[OF qs w])
    have "re_sub (find_pattern q) repl content
          = Inr (concat (map (render ?items)
                   (join_lines (map (pieces (find_pattern q)) (split_lines content)))))"
      unfolding re_sub_def parse using by_line by simp
    then have r: "re_sub (find_pattern q) repl content
                  = Inr (join_text (map ?f (split_lines content)))"
      unfolding render_join_lines by (simp add: comp_def)
    have "list_all2 (\<lambda>l out. out = l \<or> inserted_once (emitted q w) l out)
            (split_lines content) (map ?f (split_lines content))"
      unfolding list_all2_map2
    proof (rule list_all2_same[THEN iffD2], rule ballI)
      fix l assume "l \<in> set (split_lines content)"
      then have "NL \<notin> set l" by (rule split_lines_nl_free)
      from line_rewritten[OF qn this, of "emitted q w"]
      show "?f l = l \<or> inserted_once (emitted q w) l (?f l)" by (simp add: Let_def)
    qed
    with r show ?thesis by blast
  qed
  from by_line bound ins show ?thesis by blast
qed

text \<open>
  A line with two double-quoted literals that both contain one of the two texts has one
  match, and the whitelist \<open>XYZ\<close> is inserted once in it.
\<close>
theorem one_insertion_per_line_witness:
  "(find_pattern DQ, find_replace ''XYZ'' False) \<in> set (FIND ''XYZ'') \<and>
   \<not> is_digit (hd ''XYZ'') \<and>
   split_lines ([DQ] @ ''a-zA-Z'' @ [DQ] @ '' '' @ [DQ] @ ''A-Za-z'' @ [DQ] @ [NL] @ ''z'')
     = [[DQ] @ ''a-zA-Z'' @ [DQ] @ '' '' @ [DQ] @ ''A-Za-z'' @ [DQ], ''z''] \<and>
   length (re_findall (find_pattern DQ) ([DQ] @ ''a-zA-Z'' @ [DQ] @ '' '' @ [DQ] @ ''A-Za-z'' @ [DQ])) \<le> 1 \<and>
   (\<exists>outs. re_sub (find_pattern DQ) (find_replace ''XYZ'' False)
             ([DQ] @ ''a-zA-Z'' @ [DQ] @ '' '' @ [DQ] @ ''A-Za-z'' @ [DQ] @ [NL] @ ''z'')
           = Inr (join_text outs) \<and>
           list_all2 (\<lambda>l out. out = l \<or> inserted_once (emitted DQ ''XYZ'') l out)
             (split_lines ([DQ] @ ''a-zA-Z'' @ [DQ] @ '' '' @ [DQ] @ ''A-Za-z'' @ [DQ] @ [NL] @ ''z''))
             outs) \<and>
   re_sub (find_pattern DQ) (find_replace ''XYZ'' False)
     ([DQ] @ ''a-zA-Z'' @ [DQ] @ '' '' @ [DQ] @ ''A-Za-z'' @ [DQ] @ [NL] @ ''z'')
   = Inr ([DQ] @ ''a-zA-Z'' @ [DQ] @ '' '' @ [DQ] @ ''A-Za-z'' @ ''XYZ'' @ [DQ] @ [NL] @ ''z'')"
proof -
  have m: "(find_pattern DQ, find_replace ''XYZ'' False) \<in> set (FIND ''XYZ'')"
    by (simp add: FIND_def)
  have d: "''XYZ'' = [] \<or> \<not> is_digit (hd ''XYZ'')" by (simp add: is_digit_def)
  have s: "split_lines ([DQ] @ ''a-zA-Z'' @ [DQ] @ '' '' @ [DQ] @ ''A-Za-z'' @ [DQ] @ [NL] @ ''z'')
     = [[DQ] @ ''a-zA-Z'' @ [DQ] @ '' '' @ [DQ] @ ''A-Za-z'' @ [DQ], ''z'']"
    by code_simp
  have r: "re_sub (find_pattern DQ) (find_replace ''XYZ'' False)
     ([DQ] @ ''a-zA-Z'' @ [DQ] @ '' '' @ [DQ] @ ''A-Za-z'' @ [DQ] @ [NL] @ ''z'')
   = Inr ([DQ] @ ''a-zA-Z'' @ [DQ] @ '' '' @ [DQ] @ ''A-Za-z'' @ ''XYZ'' @ [DQ] @ [NL] @ ''z'')"
    by code_simp
  note t = one_insertion_per_line[OF m,
      of "[DQ] @ ''a-zA-Z'' @ [DQ] @ '' '' @ [DQ] @ ''A-Za-z'' @ [DQ] @ [NL] @ ''z''"]
  from t have "\<forall>l \<in> set (split_lines ([DQ] @ ''a-zA-Z'' @ [DQ] @ '' '' @ [DQ] @ ''A-Za-z'' @ [DQ] @ [NL] @ ''z'')).
          length (re_findall (find_pattern DQ) l) \<le> 1"
    by blast
  then have b: "length (re_findall (find_pattern DQ) ([DQ] @ ''a-zA-Z'' @ [DQ] @ '' '' @ [DQ] @ ''A-Za-z'' @ [DQ])) \<le> 1"
    unfolding s by simp
  from t d have x: "\<exists>outs. re_sub (find_pattern DQ) (find_replace ''XYZ'' False)
             ([DQ] @ ''a-zA-Z'' @ [DQ] @ '' '' @ [DQ] @ ''A-Za-z'' @ [DQ] @ [NL] @ ''z'')
           = Inr (join_text outs) \<and>
           list_all2 (\<lambda>l out. out = l \<or> inserted_once (emitted DQ ''XYZ'') l out)
             (split_lines ([DQ] @ ''a-zA-Z'' @ [DQ] @ '' '' @ [DQ] @ ''A-Za-z'' @ [DQ] @ [NL] @ ''z''))
             outs"
    by blast
  have nd: "\<not> is_digit (hd ''XYZ'')" by (simp add: is_digit_def)
  from m nd s b x r show ?thesis by blast
qed

end
